theory Spec2Isabelle
  imports Main
begin

section \<open>Data model of \<^verbatim>\<open>calx/scripts/calx_run.py\<close>\<close>

text \<open>
  Python strings are modelled as byte strings. Dictionaries indexed by a literal key
  (\<^verbatim>\<open>c["name"]\<close>, \<^verbatim>\<open>step_conf["type"]\<close>) are records; dictionaries indexed by a
  computed key (\<^verbatim>\<open>conf["steps"][step]\<close>, \<^verbatim>\<open>queued\<close>, \<^verbatim>\<open>running\<close>) are maps or
  association lists, and a failed lookup is the value \<open>KeyError\<close>. \<open>OSError\<close> stands for
  the exceptions of \<^verbatim>\<open>open\<close> and \<^verbatim>\<open>os.remove\<close>.
\<close>

datatype error = KeyError string | OSError string | ExternalError string

text \<open>
  The file that \<^verbatim>\<open>open(os.path.join(os.environ["CALX_TMPDIR"], pname), "w")\<close> opens: a
  file of the scratch directory, under its name there (\<^verbatim>\<open>A\<close> and \<^verbatim>\<open>./A\<close> are one
  file), or a file somewhere else (an absolute \<^verbatim>\<open>pname\<close> replaces the directory, and
  \<^verbatim>\<open>..\<close> leaves it).
\<close>

datatype target = InScratch string | Elsewhere string

record Namespace =
  arg_all :: bool
  arg_container :: string
  arg_file :: string
  arg_step :: "string option"
  arg_workdir :: string

record step_conf =
  sc_type :: string
  sc_envfile :: "string option"
  sc_output :: "string option"

record dag_entry =
  dag_name :: string
  dag_step :: string
  dag_dependencies :: "string list"

record Config =
  conf_steps :: "string \<rightharpoonup> step_conf"
  conf_dag :: "dag_entry list"

text \<open>
  A container as \<^verbatim>\<open>spawn_container\<close> receives it: its six arguments, the number of the
  spawn that created it, and the number of \<^verbatim>\<open>is_finished\<close> polls that will still
  answer \<^verbatim>\<open>False\<close> (\<open>None\<close>: the container never finishes).
\<close>

record container =
  cid :: nat
  ctype :: string
  cstep :: string
  cfile :: string
  cworkdir :: string
  cenvlist :: "string list"
  coutput :: "string option"
  polls_left :: "nat option"

text \<open>
  The effects of the program in the order they happen. \<open>Admitted\<close> marks the assignment
  \<^verbatim>\<open>running[name] = ...\<close>, \<open>Released\<close> the end of the loop that discards a finished
  name from every queued dependency set.
\<close>

datatype event =
    Spawned container
  | Admitted string
  | Slept
  | Persisted string string
  | Removed string
  | Released string
  | Waited nat

text \<open>
  The process-wide state: the effects so far, the number of containers spawned so far,
  and the scratch directory named by \<^verbatim>\<open>CALX_TMPDIR\<close> with its files
  (\<open>None\<close>: no scratch directory).
\<close>

record sys =
  trace :: "event list"
  spawn_count :: nat
  tmpdir :: "(string \<rightharpoonup> string) option"

text \<open>
  What the program takes from outside this file: \<^verbatim>\<open>read_environ\<close>, which container
  types are backed by \<^verbatim>\<open>LocalContainer\<close>, and for the \<open>i\<close>-th spawned container the
  number of unfinished polls, the captured output and whether it ends with success;
  for \<^verbatim>\<open>main\<close>, the outcomes of \<^verbatim>\<open>load_config\<close>, \<^verbatim>\<open>check_pipeline_configs\<close>
  and \<^verbatim>\<open>build\<close>. From Python and the operating system: \<^verbatim>\<open>str.lower\<close> (which
  follows Unicode, so it is not defined here); for a step name, the file that opening
  it for writing under the scratch directory yields, or the exception that \<^verbatim>\<open>open\<close>
  raises (for names such as the empty one, \<^verbatim>\<open>.\<close> or \<^verbatim>\<open>x/y\<close>); and the exception, if
  any, that \<^verbatim>\<open>os.remove\<close> raises on the output file of the \<open>i\<close>-th container (a
  file that is not there).
\<close>

record world =
  read_environ :: "string option \<Rightarrow> string \<Rightarrow> string list"
  local_backend :: "string \<Rightarrow> bool"
  finish_after :: "nat \<Rightarrow> nat option"
  output_of :: "nat \<Rightarrow> string"
  exit_ok :: "nat \<Rightarrow> bool"
  load_config :: "string \<Rightarrow> string \<Rightarrow> error + Config"
  check_pipeline_configs :: "Config \<Rightarrow> error option"
  build :: "Namespace \<Rightarrow> Config \<Rightarrow> error option"
  str_lower :: "string \<Rightarrow> string"
  open_write :: "string \<Rightarrow> error + target"
  os_remove :: "nat \<Rightarrow> error option"

text \<open>
  The result of a call: it returned, it raised, or the polling sweeps allowed to it
  were used up before it did either.
\<close>

datatype outcome = Returned sys | Raised error sys | Timeout sys

section \<open>Containers\<close>

text \<open>
  Modelled from the spec: \<^verbatim>\<open>spawn_container\<close> of \<^verbatim>\<open>calx.scripts.containers\<close> is
  not in the source tree. The runner factory produces a runner bound to the chosen
  backend for the given step; the model keeps the arguments in the container and
  records the spawn.
\<close>

definition spawn_container ::
  "world \<Rightarrow> string \<Rightarrow> string \<Rightarrow> string \<Rightarrow> string \<Rightarrow> string list \<Rightarrow> string option \<Rightarrow> sys
     \<Rightarrow> container \<times> sys" where
  "spawn_container w container_type step file workdir envlist output s =
     (let c = \<lparr>cid = spawn_count s, ctype = container_type, cstep = step, cfile = file,
                cworkdir = workdir, cenvlist = envlist, coutput = output,
                polls_left = finish_after w (spawn_count s)\<rparr>
      in (c, s\<lparr>trace := trace s @ [Spawned c], spawn_count := Suc (spawn_count s)\<rparr>))"

text \<open>
  Modelled from the spec: \<^verbatim>\<open>is_finished\<close> is a non-blocking poll of one runner.
\<close>

definition is_finished :: "container \<Rightarrow> bool \<times> container" where
  "is_finished c =
     (case polls_left c of
        None \<Rightarrow> (False, c)
      | Some 0 \<Rightarrow> (True, c)
      | Some (Suc k) \<Rightarrow> (False, c\<lparr>polls_left := Some k\<rparr>))"

text \<open>
  Modelled from the spec: \<^verbatim>\<open>wait\<close> blocks until the runner has finished; \<open>None\<close> is
  a call that never returns.
\<close>

definition wait :: "container \<Rightarrow> sys \<Rightarrow> sys option" where
  "wait c s =
     (case polls_left c of
        None \<Rightarrow> None
      | Some k \<Rightarrow> Some (s\<lparr>trace := trace s @ [Waited (cid c)]\<rparr>))"

section \<open>\<^verbatim>\<open>run_step\<close>\<close>

definition run_step ::
  "world \<Rightarrow> string \<Rightarrow> Namespace \<Rightarrow> Config \<Rightarrow> sys \<Rightarrow> error + container \<times> sys" where
  "run_step w step args conf s =
     (case conf_steps conf step of
        None \<Rightarrow> Inl (KeyError step)
      | Some sc \<Rightarrow>
          (let step_type = str_lower w (sc_type sc);
               container_type = (if step_type \<noteq> ''docker'' then arg_container args else ''local'');
               envlist = read_environ w (sc_envfile sc) (arg_workdir args);
               output = sc_output sc
           in Inr (spawn_container w container_type step (arg_file args) (arg_workdir args)
                     envlist output s)))"

section \<open>\<^verbatim>\<open>run_pipeline\<close>\<close>

record queued_step =
  q_step :: string
  q_dependencies :: "string set"

type_synonym queue = "(string \<times> queued_step) list"
type_synonym runs = "(string \<times> container) list"

text \<open>
  \<^verbatim>\<open>d[k] = v\<close> on an insertion-ordered dictionary: an existing key keeps its place, a
  new key goes to the end.
\<close>

fun dict_set :: "'k \<Rightarrow> 'v \<Rightarrow> ('k \<times> 'v) list \<Rightarrow> ('k \<times> 'v) list" where
  "dict_set k v [] = [(k, v)]"
| "dict_set k v (p # ps) = (if fst p = k then (k, v) # ps else p # dict_set k v ps)"

definition dict_del :: "'k \<Rightarrow> ('k \<times> 'v) list \<Rightarrow> ('k \<times> 'v) list" where
  "dict_del k d = filter (\<lambda>p. fst p \<noteq> k) d"

text \<open>The loop \<^verbatim>\<open>for c in conf["dag"]: queued[c["name"]] = {...}\<close>.\<close>

fun prepare_queue :: "dag_entry list \<Rightarrow> queue \<Rightarrow> queue" where
  "prepare_queue [] queued = queued"
| "prepare_queue (c # cs) queued =
     prepare_queue cs
       (dict_set (dag_name c)
          \<lparr>q_step = dag_step c, q_dependencies = set (dag_dependencies c)\<rparr> queued)"

text \<open>
  The loop over \<^verbatim>\<open>queued.items()\<close> that moves jobs from the queue to \<^verbatim>\<open>running\<close>;
  an exception of \<^verbatim>\<open>run_step\<close> leaves the loop.
\<close>

fun admit ::
  "world \<Rightarrow> Namespace \<Rightarrow> Config \<Rightarrow> queue \<Rightarrow> string list \<Rightarrow> runs \<Rightarrow> sys
     \<Rightarrow> error \<times> sys + string list \<times> runs \<times> sys" where
  "admit w args conf [] to_pop running s = Inr (to_pop, running, s)"
| "admit w args conf ((name, c) # items) to_pop running s =
     (if q_dependencies c = {} then
        (case run_step w (q_step c) args conf s of
           Inl e \<Rightarrow> Inl (e, s)
         | Inr (cont, s1) \<Rightarrow>
             admit w args conf items (to_pop @ [name]) (dict_set name cont running)
               (s1\<lparr>trace := trace s1 @ [Admitted name]\<rparr>))
      else admit w args conf items to_pop running s)"

text \<open>The loop \<^verbatim>\<open>for qname in to_pop: del queued[qname]\<close>.\<close>

fun del_all :: "string list \<Rightarrow> queue \<Rightarrow> queue" where
  "del_all [] queued = queued"
| "del_all (qname # to_pop) queued = del_all to_pop (dict_del qname queued)"

text \<open>One sweep \<^verbatim>\<open>for pname in running: if running[pname].is_finished(): ...\<close>.\<close>

fun sweep :: "runs \<Rightarrow> string list \<times> runs" where
  "sweep [] = ([], [])"
| "sweep ((pname, c) # running) =
     (let (fin, c') = is_finished c; (to_pop, running') = sweep running
      in (if fin then pname # to_pop else to_pop, (pname, c') # running'))"

text \<open>
  The loop \<^verbatim>\<open>while True\<close>: sweep, leave when something has finished, sleep otherwise.
  The first argument bounds the number of sweeps; what is left of it is returned.
  \<^verbatim>\<open>to_pop\<close> is empty at the start of every sweep, since the loop is left as soon as
  it is not.
\<close>

fun poll :: "nat \<Rightarrow> runs \<Rightarrow> sys \<Rightarrow> sys + string list \<times> runs \<times> sys \<times> nat" where
  "poll 0 running s = Inl s"
| "poll (Suc fuel) running s =
     (let (to_pop, running') = sweep running
      in if to_pop \<noteq> [] then Inr (to_pop, running', s, fuel)
         else poll fuel running' (s\<lparr>trace := trace s @ [Slept]\<rparr>))"

text \<open>The loop \<^verbatim>\<open>for qname in queued: queued[qname]["dependencies"].discard(pname)\<close>.\<close>

definition release :: "string \<Rightarrow> queue \<Rightarrow> queue" where
  "release pname queued =
     map (\<lambda>(qname, c). (qname, c\<lparr>q_dependencies := q_dependencies c - {pname}\<rparr>)) queued"

text \<open>
  \<^verbatim>\<open>open(os.path.join(os.environ["CALX_TMPDIR"], pname), "w")\<close>: without
  \<^verbatim>\<open>CALX_TMPDIR\<close> the lookup in \<^verbatim>\<open>os.environ\<close> raises; \<^verbatim>\<open>open\<close> may raise; a file
  that is opened is empty from then on.
\<close>

definition open_w :: "world \<Rightarrow> string \<Rightarrow> sys \<Rightarrow> error + target \<times> sys" where
  "open_w w pname s =
     (case tmpdir s of
        None \<Rightarrow> Inl (KeyError ''CALX_TMPDIR'')
      | Some files \<Rightarrow>
          (case open_write w pname of
             Inl e \<Rightarrow> Inl e
           | Inr (InScratch f) \<Rightarrow> Inr (InScratch f, s\<lparr>tmpdir := Some (files(f \<mapsto> []))\<rparr>)
           | Inr (Elsewhere p) \<Rightarrow> Inr (Elsewhere p, s)))"

text \<open>\<^verbatim>\<open>fp.write(out)\<close> on the opened file, and leaving the \<^verbatim>\<open>with\<close> block.\<close>

definition write_out :: "target \<Rightarrow> string \<Rightarrow> string \<Rightarrow> sys \<Rightarrow> sys" where
  "write_out t pname out s =
     (case t of
        InScratch f \<Rightarrow>
          s\<lparr>tmpdir := map_option (\<lambda>files. files(f \<mapsto> out)) (tmpdir s),
            trace := trace s @ [Persisted pname out]\<rparr>
      | Elsewhere p \<Rightarrow> s\<lparr>trace := trace s @ [Persisted pname out]\<rparr>)"

text \<open>Writing an output under a step name: the two together.\<close>

definition persist :: "world \<Rightarrow> string \<Rightarrow> string \<Rightarrow> sys \<Rightarrow> error + sys" where
  "persist w pname out s =
     (case open_w w pname s of
        Inl e \<Rightarrow> Inl e
      | Inr (t, s0) \<Rightarrow> Inr (write_out t pname out s0))"

text \<open>
  Removing the local output file of a finished \<^verbatim>\<open>LocalContainer\<close> whose
  \<^verbatim>\<open>_output\<close> is neither \<^verbatim>\<open>None\<close> nor empty; \<^verbatim>\<open>os.remove\<close> may raise.
\<close>

definition remove_local :: "world \<Rightarrow> container \<Rightarrow> sys \<Rightarrow> error + sys" where
  "remove_local w c s =
     (case coutput c of
        None \<Rightarrow> Inr s
      | Some path \<Rightarrow>
          if local_backend w (ctype c) \<and> path \<noteq> [] then
            (case os_remove w (cid c) of
               Some e \<Rightarrow> Inl e
             | None \<Rightarrow> Inr (s\<lparr>trace := trace s @ [Removed path]\<rparr>))
          else Inr s)"

text \<open>
  The body of \<^verbatim>\<open>for pname in to_pop\<close> after polling, in the order of the source: the
  file is opened, then \<^verbatim>\<open>running[pname]\<close> is looked up and its output written, then
  the local file is removed, the run deleted and its name released. The loop itself
  follows.
\<close>

definition finish_one ::
  "world \<Rightarrow> string \<Rightarrow> runs \<Rightarrow> queue \<Rightarrow> sys \<Rightarrow> error \<times> sys + runs \<times> queue \<times> sys" where
  "finish_one w pname running queued s =
     (case open_w w pname s of
        Inl e \<Rightarrow> Inl (e, s)
      | Inr (t, s0) \<Rightarrow>
          (case map_of running pname of
             None \<Rightarrow> Inl (KeyError pname, s0)
           | Some c \<Rightarrow>
               (let s1 = write_out t pname (output_of w (cid c)) s0
                in case remove_local w c s1 of
                     Inl e \<Rightarrow> Inl (e, s1)
                   | Inr s2 \<Rightarrow>
                       Inr (dict_del pname running, release pname queued,
                            s2\<lparr>trace := trace s2 @ [Released pname]\<rparr>))))"

fun finish_all ::
  "world \<Rightarrow> string list \<Rightarrow> runs \<Rightarrow> queue \<Rightarrow> sys \<Rightarrow> error \<times> sys + runs \<times> queue \<times> sys" where
  "finish_all w [] running queued s = Inr (running, queued, s)"
| "finish_all w (pname # to_pop) running queued s =
     (case finish_one w pname running queued s of
        Inl r \<Rightarrow> Inl r
      | Inr (running', queued', s') \<Rightarrow> finish_all w to_pop running' queued' s')"

lemma poll_fuel: "poll fuel running s = Inr (to_pop, running', s', fuel') \<Longrightarrow> fuel' < fuel"
  by (induction fuel arbitrary: running s) (force split: prod.splits if_splits)+

text \<open>The loop \<^verbatim>\<open>while len(queued) > 0\<close>.\<close>

function scheduler ::
  "nat \<Rightarrow> world \<Rightarrow> Namespace \<Rightarrow> Config \<Rightarrow> runs \<Rightarrow> queue \<Rightarrow> sys \<Rightarrow> outcome" where
  "scheduler fuel w args conf running queued s =
     (if queued = [] then Returned s
      else
        (case admit w args conf queued [] running s of
           Inl (e, s1) \<Rightarrow> Raised e s1
         | Inr (to_pop, running1, s1) \<Rightarrow>
             (case poll fuel running1 s1 of
                Inl s2 \<Rightarrow> Timeout s2
              | Inr (to_pop2, running2, s2, fuel') \<Rightarrow>
                  (case finish_all w to_pop2 running2 (del_all to_pop queued) s2 of
                     Inl (e, s3) \<Rightarrow> Raised e s3
                   | Inr (running3, queued3, s3) \<Rightarrow>
                       scheduler fuel' w args conf running3 queued3 s3))))"
  by pat_completeness auto
termination
  by (relation "measure (\<lambda>(fuel, w, args, conf, running, queued, s). fuel)")
     (auto dest: poll_fuel)

definition run_pipeline :: "nat \<Rightarrow> world \<Rightarrow> Namespace \<Rightarrow> Config \<Rightarrow> sys \<Rightarrow> outcome" where
  "run_pipeline fuel w args conf s =
     scheduler fuel w args conf [] (prepare_queue (conf_dag conf) []) s"

section \<open>\<^verbatim>\<open>run\<close> and \<^verbatim>\<open>main\<close>\<close>

text \<open>\<^verbatim>\<open>elif args.step\<close> holds for a step name that is neither \<^verbatim>\<open>None\<close> nor empty.\<close>

definition run :: "nat \<Rightarrow> world \<Rightarrow> Namespace \<Rightarrow> Config \<Rightarrow> sys \<Rightarrow> outcome" where
  "run fuel w args conf s =
     (if arg_all args then run_pipeline fuel w args conf s
      else
        (case arg_step args of
           None \<Rightarrow> Returned s
         | Some step \<Rightarrow>
             if step = [] then Returned s
             else
               (case run_step w step args conf s of
                  Inl e \<Rightarrow> Raised e s
                | Inr (c, s1) \<Rightarrow>
                    (case wait c s1 of None \<Rightarrow> Timeout s1 | Some s2 \<Rightarrow> Returned s2))))"

text \<open>
  \<^verbatim>\<open>with TemporaryDirectory(prefix="calx") as tmpdir\<close>: the directory is created empty,
  and removed with all it holds when the block is left, by return or by exception.
\<close>

definition with_tmpdir :: "(sys \<Rightarrow> outcome) \<Rightarrow> sys \<Rightarrow> outcome" where
  "with_tmpdir body s =
     (case body (s\<lparr>tmpdir := Some Map.empty\<rparr>) of
        Returned s' \<Rightarrow> Returned (s'\<lparr>tmpdir := None\<rparr>)
      | Raised e s' \<Rightarrow> Raised e (s'\<lparr>tmpdir := None\<rparr>)
      | Timeout s' \<Rightarrow> Timeout s')"

definition start :: sys where
  "start = \<lparr>trace = [], spawn_count = 0, tmpdir = None\<rparr>"

definition main :: "nat \<Rightarrow> world \<Rightarrow> Namespace \<Rightarrow> outcome" where
  "main fuel w args =
     (case load_config w (arg_file args) (arg_workdir args) of
        Inl e \<Rightarrow> Raised e start
      | Inr conf \<Rightarrow>
          with_tmpdir
            (\<lambda>s. case check_pipeline_configs w conf of
                    Some e \<Rightarrow> Raised e s
                  | None \<Rightarrow>
                      (case build w args conf of
                         Some e \<Rightarrow> Raised e s
                       | None \<Rightarrow> run fuel w args conf s))
            start)"

section \<open>Example inputs\<close>

definition example_steps :: "string \<rightharpoonup> step_conf" where
  "example_steps =
     [''a'' \<mapsto> \<lparr>sc_type = ''Docker'', sc_envfile = None, sc_output = None\<rparr>,
      ''b'' \<mapsto> \<lparr>sc_type = ''python'', sc_envfile = None, sc_output = Some ''out.txt''\<rparr>,
      ''c'' \<mapsto> \<lparr>sc_type = ''python'', sc_envfile = Some ''.env'', sc_output = None\<rparr>]"

definition example_conf :: Config where
  "example_conf =
     \<lparr>conf_steps = example_steps,
      conf_dag =
        [\<lparr>dag_name = ''A'', dag_step = ''a'', dag_dependencies = []\<rparr>,
         \<lparr>dag_name = ''B'', dag_step = ''b'', dag_dependencies = []\<rparr>,
         \<lparr>dag_name = ''C'', dag_step = ''c'', dag_dependencies = [''A'', ''B'']\<rparr>]\<rparr>"

definition dangling_conf :: Config where
  "dangling_conf =
     \<lparr>conf_steps = example_steps,
      conf_dag = [\<lparr>dag_name = ''B'', dag_step = ''b'', dag_dependencies = [''X'']\<rparr>]\<rparr>"

definition policy_conf :: Config where
  "policy_conf =
     \<lparr>conf_steps = example_steps,
      conf_dag =
        [\<lparr>dag_name = ''A'', dag_step = ''a'', dag_dependencies = []\<rparr>,
         \<lparr>dag_name = ''B'', dag_step = ''b'', dag_dependencies = [''A'']\<rparr>,
         \<lparr>dag_name = ''C'', dag_step = ''c'', dag_dependencies = []\<rparr>]\<rparr>"

text \<open>
  An example of the outside: lowering the letters of ASCII, which is what
  \<^verbatim>\<open>str.lower\<close> does on ASCII strings; and opening names the way a POSIX file system
  does in a directory without subdirectories, for names that are empty, \<^verbatim>\<open>.\<close>,
  \<^verbatim>\<open>..\<close>, without a slash, or of the form \<^verbatim>\<open>x/y\<close>.
\<close>

definition ascii_lower :: "string \<Rightarrow> string" where
  "ascii_lower s =
     map (\<lambda>c. case map_of (zip ''ABCDEFGHIJKLMNOPQRSTUVWXYZ'' ''abcdefghijklmnopqrstuvwxyz'') c of
               None \<Rightarrow> c
             | Some l \<Rightarrow> l) s"

definition flat_open :: "string \<Rightarrow> error + target" where
  "flat_open pname =
     (if pname = [] \<or> pname = ''.'' \<or> pname = ''..'' then Inl (OSError ''IsADirectoryError'')
      else if CHR ''/'' \<in> set pname then Inl (OSError ''FileNotFoundError'')
      else Inr (InScratch pname))"

text \<open>
  A step type that only \<^verbatim>\<open>str.lower\<close> outside ASCII turns into \<^verbatim>\<open>docker\<close>: \<^verbatim>\<open>DOC\<close>, the
  Kelvin sign (U+212A, three bytes in UTF-8), \<^verbatim>\<open>ER\<close>; and a lowering that does so.
\<close>

definition kelvin_type :: string where
  "kelvin_type = ''DOC'' @ [CHR 0xE2, CHR 0x84, CHR 0xAA] @ ''ER''"

definition unicode_lower :: "string \<Rightarrow> string" where
  "unicode_lower s = (if s = kelvin_type then ''docker'' else ascii_lower s)"

definition kelvin_conf :: Config where
  "kelvin_conf =
     \<lparr>conf_steps = [''k'' \<mapsto> \<lparr>sc_type = kelvin_type, sc_envfile = None, sc_output = None\<rparr>],
      conf_dag = [\<lparr>dag_name = ''K'', dag_step = ''k'', dag_dependencies = []\<rparr>]\<rparr>"

definition slash_conf :: Config where
  "slash_conf =
     \<lparr>conf_steps = example_steps,
      conf_dag =
        [\<lparr>dag_name = ''x/y'', dag_step = ''a'', dag_dependencies = []\<rparr>,
         \<lparr>dag_name = ''B'', dag_step = ''b'', dag_dependencies = [''x/y'']\<rparr>]\<rparr>"

definition example_world :: world where
  "example_world =
     \<lparr>read_environ = (\<lambda>envfile workdir. []), local_backend = (\<lambda>t. t = ''local''),
      finish_after = (\<lambda>i. Some i), output_of = (\<lambda>i. ''out''), exit_ok = (\<lambda>i. i \<noteq> 0),
      load_config = (\<lambda>file workdir. Inr example_conf),
      check_pipeline_configs = (\<lambda>conf. None), build = (\<lambda>args conf. None),
      str_lower = ascii_lower, open_write = flat_open, os_remove = (\<lambda>i. None)\<rparr>"

definition example_args :: Namespace where
  "example_args =
     \<lparr>arg_all = True, arg_container = ''podman'', arg_file = ''pipeline.yaml'',
      arg_step = None, arg_workdir = ''.''\<rparr>"

definition fresh_run :: sys where
  "fresh_run = \<lparr>trace = [], spawn_count = 0, tmpdir = Some Map.empty\<rparr>"

section \<open>Notions used in the statements\<close>

text \<open>The names admitted in a trace, in the order of their admission.\<close>

fun admitted :: "event list \<Rightarrow> string list" where
  "admitted [] = []"
| "admitted (Admitted name # tr) = name # admitted tr"
| "admitted (e # tr) = admitted tr"

text \<open>
  The containers spawned in a trace, in the order of the spawns; the admitted names
  paired with the steps for which the containers were spawned; and the names of a
  queue paired with their steps.
\<close>

fun spawned :: "event list \<Rightarrow> container list" where
  "spawned [] = []"
| "spawned (Spawned c # tr) = c # spawned tr"
| "spawned (e # tr) = spawned tr"

definition dispatched :: "event list \<Rightarrow> (string \<times> string) list" where
  "dispatched tr = zip (admitted tr) (map cstep (spawned tr))"

definition steps_of :: "queue \<Rightarrow> (string \<times> string) list" where
  "steps_of queued = map (\<lambda>(qname, c). (qname, q_step c)) queued"

text \<open>The files of the scratch directory that the names of a list open.\<close>

definition scratch_files :: "world \<Rightarrow> string list \<Rightarrow> string set" where
  "scratch_files w names = {f. \<exists>pname \<in> set names. open_write w pname = Inr (InScratch f)}"

text \<open>The queued names whose dependency set is empty, in the order of the queue.\<close>

definition eligible :: "queue \<Rightarrow> string list" where
  "eligible queued = map fst (filter (\<lambda>(name, c). q_dependencies c = {}) queued)"

text \<open>The running containers after \<open>k\<close> sweeps, and those that report finished now.\<close>

definition age :: "nat \<Rightarrow> runs \<Rightarrow> runs" where
  "age k running =
     map (\<lambda>(pname, c). (pname, c\<lparr>polls_left := map_option (\<lambda>j. j - k) (polls_left c)\<rparr>)) running"

definition finished :: "runs \<Rightarrow> string list" where
  "finished running = map fst (filter (\<lambda>(pname, c). polls_left c = Some 0) running)"

text \<open>The queue after the names of a list have been released.\<close>

definition discard_all :: "string list \<Rightarrow> queue \<Rightarrow> queue" where
  "discard_all names queued =
     map (\<lambda>(qname, c). (qname, c\<lparr>q_dependencies := q_dependencies c - set names\<rparr>)) queued"

text \<open>The dependency graph of a DAG: an edge from each declared dependency to the step.\<close>

definition depends_on :: "dag_entry list \<Rightarrow> (string \<times> string) set" where
  "depends_on cs = {(d, dag_name c) | c d. c \<in> set cs \<and> d \<in> set (dag_dependencies c)}"



text \<open>The state in which a call ended, or in which its sweeps were used up.\<close>

fun state_of :: "outcome \<Rightarrow> sys" where
  "state_of (Returned s) = s"
| "state_of (Raised e s) = s"
| "state_of (Timeout s) = s"



section \<open>Evaluation\<close>

declare scheduler.simps [simp del]

lemmas eval_defs =
  main_def with_tmpdir_def run_def run_pipeline_def start_def fresh_run_def
  example_steps_def example_conf_def dangling_conf_def policy_conf_def slash_conf_def
  example_world_def example_args_def ascii_lower_def flat_open_def
  scheduler.simps run_step_def spawn_container_def Let_def dict_del_def release_def
  is_finished_def finish_one_def open_w_def write_out_def persist_def remove_local_def
  wait_def numeral_eq_Suc

section \<open>Dependency release\<close>

text \<open>
  Claim C6. Dependency release is idempotent: for every state of the queue and every
  name, releasing the name twice gives the same queue as releasing it once.
\<close>

theorem release_idempotent: "release pname (release pname queued) = release pname queued"
  by (induction queued) (auto simp: release_def)

section \<open>The container type of a step\<close>

text \<open>
  Claim C9. For a configured step, \<^verbatim>\<open>run_step\<close> spawns its container with the
  container type of \<^verbatim>\<open>args.container\<close>, except when the step's type, lowercased by
  \<^verbatim>\<open>str.lower\<close>, is \<^verbatim>\<open>docker\<close>: then the container type is \<^verbatim>\<open>local\<close>, whatever
  \<^verbatim>\<open>args.container\<close> is. The container is spawned for that step, and the spawn is the
  only effect.
\<close>

theorem run_step_container_type:
  "conf_steps conf step = Some sc \<Longrightarrow>
   \<exists>c s'. run_step w step args conf s = Inr (c, s') \<and>
     ctype c = (if str_lower w (sc_type sc) = ''docker'' then ''local'' else arg_container args) \<and>
     cstep c = step \<and> trace s' = trace s @ [Spawned c]"
  by (simp add: run_step_def spawn_container_def Let_def)

theorem run_step_container_type_witness:
  "conf_steps example_conf ''a'' = Some \<lparr>sc_type = ''Docker'', sc_envfile = None, sc_output = None\<rparr> \<and>
   conf_steps example_conf ''b'' = Some \<lparr>sc_type = ''python'', sc_envfile = None, sc_output = Some ''out.txt''\<rparr> \<and>
   conf_steps kelvin_conf ''k'' = Some \<lparr>sc_type = kelvin_type, sc_envfile = None, sc_output = None\<rparr> \<and>
   (\<exists>c s'. run_step example_world ''a'' example_args example_conf fresh_run = Inr (c, s') \<and>
      ctype c = ''local'') \<and>
   (\<exists>c s'. run_step example_world ''b'' example_args example_conf fresh_run = Inr (c, s') \<and>
      ctype c = ''podman'') \<and>
   (\<exists>c s'. run_step (example_world\<lparr>str_lower := unicode_lower\<rparr>) ''k'' example_args kelvin_conf
              fresh_run = Inr (c, s') \<and>
      ctype c = ''local'')"
proof -
  have a: "conf_steps example_conf ''a'' = Some \<lparr>sc_type = ''Docker'', sc_envfile = None, sc_output = None\<rparr>"
    by (simp add: example_conf_def example_steps_def)
  have b: "conf_steps example_conf ''b'' = Some \<lparr>sc_type = ''python'', sc_envfile = None, sc_output = Some ''out.txt''\<rparr>"
    by (simp add: example_conf_def example_steps_def)
  have k: "conf_steps kelvin_conf ''k'' = Some \<lparr>sc_type = kelvin_type, sc_envfile = None, sc_output = None\<rparr>"
    by (simp add: kelvin_conf_def)
  have la: "str_lower example_world ''Docker'' = ''docker''"
    and lb: "str_lower example_world ''python'' \<noteq> ''docker''"
    by (simp_all add: example_world_def ascii_lower_def)
  have lk: "str_lower (example_world\<lparr>str_lower := unicode_lower\<rparr>) kelvin_type = ''docker''"
    by (simp add: unicode_lower_def)
  from run_step_container_type [OF a, of example_world example_args fresh_run] la
  have 1: "\<exists>c s'. run_step example_world ''a'' example_args example_conf fresh_run = Inr (c, s') \<and>
      ctype c = ''local''" by auto
  from run_step_container_type [OF b, of example_world example_args fresh_run] lb
  have 2: "\<exists>c s'. run_step example_world ''b'' example_args example_conf fresh_run = Inr (c, s') \<and>
      ctype c = ''podman''" by (auto simp: example_args_def)
  from run_step_container_type [OF k, of "example_world\<lparr>str_lower := unicode_lower\<rparr>"
      example_args fresh_run] lk
  have 3: "\<exists>c s'. run_step (example_world\<lparr>str_lower := unicode_lower\<rparr>) ''k'' example_args
      kelvin_conf fresh_run = Inr (c, s') \<and> ctype c = ''local''" by auto
  from a b k 1 2 3 show ?thesis by blast
qed

section \<open>Writing an output\<close>

text \<open>
  Claim C5 as stated fails: writing an output for a name that already has one succeeds,
  and the old output is gone.
\<close>

theorem persist_duplicate_counterexample:
  "persist example_world ''A'' ''new''
       \<lparr>trace = [], spawn_count = 1, tmpdir = Some [''A'' \<mapsto> ''old'']\<rparr> =
     Inr \<lparr>trace = [Persisted ''A'' ''new''], spawn_count = 1, tmpdir = Some [''A'' \<mapsto> ''new'']\<rparr>"
  by (simp add: persist_def open_w_def write_out_def example_world_def flat_open_def)

text \<open>
  Claim C5, amended. The write is not at most once per step name, and there is no
  \<^verbatim>\<open>DuplicateWrite\<close>: whenever writing an output for a step name has succeeded, writing
  another output for the same name succeeds as well. When the name opens a file of the
  scratch directory, the first write has left the first output in that file, and the
  second write replaces it by the second output and changes no other file.
\<close>

theorem persist_again_replaces:
  "persist w pname out s = Inr s1 \<Longrightarrow>
   \<exists>s2. persist w pname out' s1 = Inr s2 \<and> trace s2 = trace s1 @ [Persisted pname out'] \<and>
     (\<forall>f. open_write w pname = Inr (InScratch f) \<longrightarrow>
        (\<exists>files1. tmpdir s1 = Some files1 \<and> files1 f = Some out \<and>
           tmpdir s2 = Some (files1(f \<mapsto> out'))))"
  by (auto simp: persist_def open_w_def write_out_def
      split: option.splits sum.splits target.splits)

theorem persist_again_replaces_witness:
  "persist example_world ''A'' ''old'' fresh_run =
     Inr \<lparr>trace = [Persisted ''A'' ''old''], spawn_count = 0, tmpdir = Some [''A'' \<mapsto> ''old'']\<rparr> \<and>
   open_write example_world ''A'' = Inr (InScratch ''A'') \<and>
   (\<exists>s2. persist example_world ''A'' ''new''
            \<lparr>trace = [Persisted ''A'' ''old''], spawn_count = 0, tmpdir = Some [''A'' \<mapsto> ''old'']\<rparr>
          = Inr s2 \<and>
      trace s2 = [Persisted ''A'' ''old'', Persisted ''A'' ''new''] \<and>
      tmpdir s2 = Some [''A'' \<mapsto> ''new''])"
proof -
  have 1: "persist example_world ''A'' ''old'' fresh_run =
     Inr \<lparr>trace = [Persisted ''A'' ''old''], spawn_count = 0, tmpdir = Some [''A'' \<mapsto> ''old'']\<rparr>"
    by (simp add: persist_def open_w_def write_out_def example_world_def flat_open_def
        fresh_run_def)
  have 2: "open_write example_world ''A'' = Inr (InScratch ''A'')"
    by (simp add: example_world_def flat_open_def)
  from persist_again_replaces [OF 1, of "''new''"] 2
  have "\<exists>s2. persist example_world ''A'' ''new''
            \<lparr>trace = [Persisted ''A'' ''old''], spawn_count = 0, tmpdir = Some [''A'' \<mapsto> ''old'']\<rparr>
          = Inr s2 \<and>
      trace s2 = [Persisted ''A'' ''old'', Persisted ''A'' ''new''] \<and>
      tmpdir s2 = Some [''A'' \<mapsto> ''new'']"
    by auto
  with 1 2 show ?thesis by blast
qed

section \<open>The scratch directory at the end of \<^verbatim>\<open>main\<close>\<close>

text \<open>
  Claim C7. Whenever \<^verbatim>\<open>main\<close> ends, by returning or by raising (in loading or
  checking the configuration, in building or in running the steps), the scratch
  directory and every file in it are gone.
\<close>

theorem main_removes_tmpdir:
  "main fuel w args = Returned s \<or> main fuel w args = Raised e s \<Longrightarrow> tmpdir s = None"
  by (auto simp: main_def with_tmpdir_def start_def split: sum.splits outcome.splits option.splits)

theorem main_removes_tmpdir_witness:
  "(\<exists>s. main 10 example_world example_args = Returned s \<and> tmpdir s = None) \<and>
   (\<exists>e s. main 10 (example_world\<lparr>build := \<lambda>args conf. Some (ExternalError ''build'')\<rparr>) example_args
            = Raised e s \<and> tmpdir s = None) \<and>
   (\<exists>e s. main 10 example_world (example_args\<lparr>arg_all := False, arg_step := Some ''nostep''\<rparr>)
            = Raised e s \<and> tmpdir s = None)"
proof -
  have 1: "\<exists>s. main 10 example_world example_args = Returned s"
    by (simp add: eval_defs)
  have 2: "\<exists>e s. main 10 (example_world\<lparr>build := \<lambda>args conf. Some (ExternalError ''build'')\<rparr>) example_args
            = Raised e s"
    by (simp add: eval_defs)
  have 3: "\<exists>e s. main 10 example_world (example_args\<lparr>arg_all := False, arg_step := Some ''nostep''\<rparr>)
            = Raised e s"
    by (simp add: eval_defs)
  from 1 2 3 show ?thesis
    using main_removes_tmpdir by blast
qed

section \<open>A queue that cannot advance\<close>

lemma poll_no_runs: "poll fuel [] s = Inl (s\<lparr>trace := trace s @ replicate fuel Slept\<rparr>)"
proof (induction fuel arbitrary: s)
  case 0
  show ?case by simp
next
  case (Suc fuel)
  have "[Slept] @ replicate fuel Slept = replicate fuel Slept @ [Slept]"
    by (simp add: replicate_append_same)
  with Suc show ?case by simp
qed

lemma admit_none_eligible:
  "list_all (\<lambda>(name, c). q_dependencies c \<noteq> {}) items \<Longrightarrow>
   admit w args conf items to_pop running s = Inr (to_pop, running, s)"
  by (induction items) (auto split: if_splits)

text \<open>
  Claim C4 as stated fails: for the one-step pipeline whose step depends on an
  undeclared name, no number of sweeps ends in an error.
\<close>

theorem deadlock_error_counterexample:
  "\<not> (\<exists>fuel e s. run_pipeline fuel example_world example_args dangling_conf fresh_run = Raised e s)"
proof -
  have "run_pipeline fuel example_world example_args dangling_conf fresh_run =
          Timeout (fresh_run\<lparr>trace := trace fresh_run @ replicate fuel Slept\<rparr>)" for fuel
    unfolding run_pipeline_def
    by (subst scheduler.simps) (simp add: dangling_conf_def admit_none_eligible poll_no_runs)
  then show ?thesis by simp
qed

text \<open>
  Claim C4, amended. When the queue is not empty, no queued step has an empty
  dependency set and nothing is running, the scheduler raises nothing and does not
  return: every polling sweep finds nothing finished and sleeps, however many sweeps
  are allowed.
\<close>

theorem deadlock_sleeps_forever:
  assumes "queued \<noteq> []" and "list_all (\<lambda>(name, c). q_dependencies c \<noteq> {}) queued"
  shows "scheduler fuel w args conf [] queued s =
           Timeout (s\<lparr>trace := trace s @ replicate fuel Slept\<rparr>)"
  using assms by (subst scheduler.simps) (simp add: admit_none_eligible poll_no_runs)

theorem deadlock_sleeps_forever_witness:
  "[(''B'', \<lparr>q_step = ''b'', q_dependencies = {''X''}\<rparr>)] \<noteq> [] \<and>
   list_all (\<lambda>(name, c). q_dependencies c \<noteq> {}) [(''B'', \<lparr>q_step = ''b'', q_dependencies = {''X''}\<rparr>)] \<and>
   scheduler 3 example_world example_args dangling_conf []
     [(''B'', \<lparr>q_step = ''b'', q_dependencies = {''X''}\<rparr>)] fresh_run =
     Timeout \<lparr>trace = [Slept, Slept, Slept], spawn_count = 0, tmpdir = Some Map.empty\<rparr>"
  using deadlock_sleeps_forever [of "[(''B'', \<lparr>q_step = ''b'', q_dependencies = {''X''}\<rparr>)]"
      3 example_world example_args dangling_conf fresh_run]
  by (simp add: fresh_run_def numeral_eq_Suc)

section \<open>The entry point \<^verbatim>\<open>run\<close>\<close>

lemma run_step_ignores_flags:
  "run_step w step (args\<lparr>arg_all := a, arg_step := x\<rparr>) conf s = run_step w step args conf s"
  by (simp add: run_step_def Let_def split: option.splits)

lemma admit_ignores_flags:
  "admit w (args\<lparr>arg_all := a, arg_step := x\<rparr>) conf items to_pop running s =
   admit w args conf items to_pop running s"
  by (induction items arbitrary: to_pop running s)
     (auto simp: run_step_ignores_flags split: sum.splits)

lemma scheduler_ignores_flags:
  "scheduler fuel w (args\<lparr>arg_all := a, arg_step := x\<rparr>) conf running queued s =
   scheduler fuel w args conf running queued s"
proof (induction fuel w args conf running queued s rule: scheduler.induct)
  case (1 fuel w args conf running queued s)
  show ?case
    unfolding scheduler.simps [of fuel w args conf running queued s]
      scheduler.simps [of fuel w "args\<lparr>arg_all := a, arg_step := x\<rparr>" conf running queued s]
    using 1 by (auto simp: admit_ignores_flags split: sum.splits prod.splits)
qed

text \<open>
  Claim C10. With \<^verbatim>\<open>args.all\<close> set, \<^verbatim>\<open>run\<close> is the run of the whole pipeline and
  \<^verbatim>\<open>args.step\<close> does not matter. With \<^verbatim>\<open>args.all\<close> unset and \<^verbatim>\<open>args.step\<close> the
  non-empty name of a configured step, one container is spawned, for that step, and
  \<^verbatim>\<open>run\<close> returns after waiting for it; it does not return when the container never
  finishes. With \<^verbatim>\<open>args.all\<close> unset and no step name (\<^verbatim>\<open>None\<close> or empty), nothing is
  spawned.
\<close>

theorem run_dispatch:
  "(arg_all args \<longrightarrow>
      run fuel w args conf s = run_pipeline fuel w (args\<lparr>arg_step := None\<rparr>) conf s) \<and>
   (\<not> arg_all args \<and> arg_step args = Some step \<and> step \<noteq> [] \<and> conf_steps conf step = Some sc \<longrightarrow>
      (\<exists>c. cstep c = step \<and> cid c = spawn_count s \<and> polls_left c = finish_after w (spawn_count s) \<and>
         run fuel w args conf s =
           (if finish_after w (spawn_count s) = None
            then Timeout (s\<lparr>trace := trace s @ [Spawned c], spawn_count := Suc (spawn_count s)\<rparr>)
            else Returned (s\<lparr>trace := trace s @ [Spawned c, Waited (cid c)],
                             spawn_count := Suc (spawn_count s)\<rparr>)))) \<and>
   (\<not> arg_all args \<and> (arg_step args = None \<or> arg_step args = Some []) \<longrightarrow>
      run fuel w args conf s = Returned s)"
proof (intro conjI impI)
  assume "arg_all args"
  moreover have "args\<lparr>arg_step := None\<rparr> = args\<lparr>arg_all := arg_all args, arg_step := None\<rparr>"
    by simp
  ultimately show "run fuel w args conf s = run_pipeline fuel w (args\<lparr>arg_step := None\<rparr>) conf s"
    by (simp only: run_def run_pipeline_def scheduler_ignores_flags if_True)
next
  assume "\<not> arg_all args \<and> arg_step args = Some step \<and> step \<noteq> [] \<and> conf_steps conf step = Some sc"
  then show "\<exists>c. cstep c = step \<and> cid c = spawn_count s \<and> polls_left c = finish_after w (spawn_count s) \<and>
         run fuel w args conf s =
           (if finish_after w (spawn_count s) = None
            then Timeout (s\<lparr>trace := trace s @ [Spawned c], spawn_count := Suc (spawn_count s)\<rparr>)
            else Returned (s\<lparr>trace := trace s @ [Spawned c, Waited (cid c)],
                             spawn_count := Suc (spawn_count s)\<rparr>))"
    by (intro exI [of _ "\<lparr>cid = spawn_count s,
            ctype = (if str_lower w (sc_type sc) \<noteq> ''docker'' then arg_container args else ''local''),
            cstep = step, cfile = arg_file args, cworkdir = arg_workdir args,
            cenvlist = read_environ w (sc_envfile sc) (arg_workdir args),
            coutput = sc_output sc, polls_left = finish_after w (spawn_count s)\<rparr>"])
       (auto simp: run_def run_step_def spawn_container_def wait_def Let_def)
next
  assume "\<not> arg_all args \<and> (arg_step args = None \<or> arg_step args = Some [])"
  then show "run fuel w args conf s = Returned s"
    by (auto simp: run_def)
qed

theorem run_dispatch_witness:
  "run 10 example_world (example_args\<lparr>arg_step := Some ''b''\<rparr>) example_conf fresh_run =
     run_pipeline 10 example_world (example_args\<lparr>arg_step := None\<rparr>) example_conf fresh_run \<and>
   (\<exists>c. cstep c = ''b'' \<and>
      run 10 example_world (example_args\<lparr>arg_all := False, arg_step := Some ''b''\<rparr>) example_conf
          fresh_run =
        Returned (fresh_run\<lparr>trace := [Spawned c, Waited (cid c)], spawn_count := 1\<rparr>)) \<and>
   run 10 example_world (example_args\<lparr>arg_all := False\<rparr>) example_conf fresh_run =
     Returned fresh_run"
proof -
  have b: "conf_steps example_conf ''b'' =
      Some \<lparr>sc_type = ''python'', sc_envfile = None, sc_output = Some ''out.txt''\<rparr>"
    by (simp add: example_conf_def example_steps_def)
  have 1: "run 10 example_world (example_args\<lparr>arg_step := Some ''b''\<rparr>) example_conf fresh_run =
     run_pipeline 10 example_world (example_args\<lparr>arg_step := None\<rparr>) example_conf fresh_run"
    using run_dispatch [of "example_args\<lparr>arg_step := Some ''b''\<rparr>" 10 example_world
        example_conf fresh_run]
    by (simp add: example_args_def)
  have 2: "\<exists>c. cstep c = ''b'' \<and>
      run 10 example_world (example_args\<lparr>arg_all := False, arg_step := Some ''b''\<rparr>) example_conf
          fresh_run =
        Returned (fresh_run\<lparr>trace := [Spawned c, Waited (cid c)], spawn_count := 1\<rparr>)"
    using run_dispatch [of "example_args\<lparr>arg_all := False, arg_step := Some ''b''\<rparr>" 10
        example_world example_conf fresh_run "''b''"
        "\<lparr>sc_type = ''python'', sc_envfile = None, sc_output = Some ''out.txt''\<rparr>"] b
    by (auto simp: example_args_def example_world_def fresh_run_def)
  have 3: "run 10 example_world (example_args\<lparr>arg_all := False\<rparr>) example_conf fresh_run =
     Returned fresh_run"
    using run_dispatch [of "example_args\<lparr>arg_all := False\<rparr>" 10 example_world
        example_conf fresh_run]
    by (simp add: example_args_def)
  from 1 2 3 show ?thesis by blast
qed

section \<open>Termination and single dispatch\<close>

lemma admitted_append: "admitted (tr @ tr') = admitted tr @ admitted tr'"
  by (induction tr rule: admitted.induct) auto

lemma spawned_append: "spawned (tr @ tr') = spawned tr @ spawned tr'"
  by (induction tr rule: spawned.induct) auto

lemma dispatched_append:
  "length (spawned tr) = length (admitted tr) \<Longrightarrow>
   dispatched (tr @ tr') = dispatched tr @ dispatched tr'"
  by (simp add: dispatched_def admitted_append spawned_append)

lemma eligible_Cons:
  "eligible ((name, c) # items) =
     (if q_dependencies c = {} then name # eligible items else eligible items)"
  by (simp add: eligible_def)

lemma eligible_Nil: "eligible [] = []"
  by (simp add: eligible_def)

lemma eligible_subset: "set (eligible queued) \<subseteq> fst ` set queued"
  by (auto simp: eligible_def)

lemma eligible_distinct: "distinct (map fst queued) \<Longrightarrow> distinct (eligible queued)"
  by (simp add: eligible_def distinct_map_filter)

subsection \<open>Dictionaries\<close>

lemma dict_set_keys: "fst ` set (dict_set k v d) = insert k (fst ` set d)"
  by (induction d) auto

lemma dict_set_distinct: "distinct (map fst d) \<Longrightarrow> distinct (map fst (dict_set k v d))"
  by (induction d) (auto simp: dict_set_keys)

lemma dict_set_entries: "set (dict_set k v d) \<subseteq> insert (k, v) (set d)"
  by (induction d) auto

lemma del_all_filter: "del_all to_pop queued = filter (\<lambda>p. fst p \<notin> set to_pop) queued"
  by (induction to_pop arbitrary: queued) (auto simp: dict_del_def intro: filter_cong)

lemma prepare_queue_keys:
  "fst ` set (prepare_queue cs queued) = fst ` set queued \<union> dag_name ` set cs"
  by (induction cs arbitrary: queued) (auto simp: dict_set_keys)

lemma prepare_queue_distinct:
  "distinct (map fst queued) \<Longrightarrow> distinct (map fst (prepare_queue cs queued))"
  by (induction cs arbitrary: queued) (auto simp: dict_set_distinct)

lemma prepare_queue_entries:
  "(name, c) \<in> set (prepare_queue cs queued) \<Longrightarrow>
   (name, c) \<in> set queued \<or>
   (\<exists>d \<in> set cs. name = dag_name d \<and>
      c = \<lparr>q_step = dag_step d, q_dependencies = set (dag_dependencies d)\<rparr>)"
proof (induction cs arbitrary: queued)
  case Nil
  then show ?case by simp
next
  case (Cons d cs)
  from Cons.IH [OF Cons.prems [simplified]] show ?case
    using dict_set_entries [of "dag_name d" _ queued] by auto
qed

subsection \<open>\<^verbatim>\<open>run_step\<close> and admission\<close>

lemma run_step_result:
  "run_step w step args conf s = Inr (c, s') \<Longrightarrow>
   trace s' = trace s @ [Spawned c] \<and> tmpdir s' = tmpdir s \<and>
   spawn_count s' = Suc (spawn_count s) \<and> polls_left c = finish_after w (spawn_count s) \<and>
   cstep c = step"
  by (auto simp: run_step_def spawn_container_def Let_def split: option.splits)

lemma run_step_configured:
  "step \<in> dom (conf_steps conf) \<Longrightarrow> \<exists>c s'. run_step w step args conf s = Inr (c, s')"
  by (auto simp: run_step_def)

lemma admit_total:
  "\<forall>(name, c) \<in> set items. q_step c \<in> dom (conf_steps conf) \<Longrightarrow>
   \<exists>to_pop' running' s'. admit w args conf items to_pop running s = Inr (to_pop', running', s')"
proof (induction items arbitrary: to_pop running s)
  case Nil
  show ?case by simp
next
  case (Cons p items)
  obtain name c where p: "p = (name, c)" by (cases p)
  from Cons.prems p have conf: "q_step c \<in> dom (conf_steps conf)"
    and rest: "\<forall>(name, c) \<in> set items. q_step c \<in> dom (conf_steps conf)" by auto
  show ?case
  proof (cases "q_dependencies c = {}")
    case True
    from run_step_configured [OF conf] obtain cont s1
      where "run_step w (q_step c) args conf s = Inr (cont, s1)" by blast
    with True p Cons.IH [OF rest] show ?thesis by simp
  next
    case False
    with p Cons.IH [OF rest] show ?thesis by simp
  qed
qed

lemma admit_result:
  "admit w args conf items to_pop running s = Inr (to_pop', running', s') \<Longrightarrow>
   to_pop' = to_pop @ eligible items \<and>
   fst ` set running' = fst ` set running \<union> set (eligible items) \<and>
   admitted (trace s') = admitted (trace s) @ eligible items \<and>
   tmpdir s' = tmpdir s \<and> spawn_count s' = spawn_count s + length (eligible items)"
proof (induction items arbitrary: to_pop running s)
  case Nil
  then show ?case by (simp add: eligible_Nil)
next
  case (Cons p items)
  obtain name c where p: "p = (name, c)" by (cases p)
  show ?case
  proof (cases "q_dependencies c = {}")
    case True
    with Cons.prems p obtain cont s1 where
      rs: "run_step w (q_step c) args conf s = Inr (cont, s1)" and
      rest: "admit w args conf items (to_pop @ [name]) (dict_set name cont running)
               (s1\<lparr>trace := trace s1 @ [Admitted name]\<rparr>) = Inr (to_pop', running', s')"
      by (auto split: sum.splits)
    from Cons.IH [OF rest] run_step_result [OF rs] True p show ?thesis
      by (simp add: eligible_Cons dict_set_keys admitted_append)
  next
    case False
    with Cons.prems p Cons.IH [of to_pop running s] show ?thesis
      by (simp add: eligible_Cons)
  qed
qed

lemma admit_distinct:
  "admit w args conf items to_pop running s = Inr (to_pop', running', s') \<Longrightarrow>
   distinct (map fst running) \<Longrightarrow> distinct (map fst running')"
  by (induction items arbitrary: to_pop running s)
     (auto split: if_splits sum.splits simp: dict_set_distinct)

lemma admit_finite:
  "admit w args conf items to_pop running s = Inr (to_pop', running', s') \<Longrightarrow>
   \<forall>i. finish_after w i \<noteq> None \<Longrightarrow>
   \<forall>(pname, c) \<in> set running. polls_left c \<noteq> None \<Longrightarrow>
   \<forall>(pname, c) \<in> set running'. polls_left c \<noteq> None"
proof (induction items arbitrary: to_pop running s)
  case Nil
  then show ?case by simp
next
  case (Cons p items)
  obtain name c where p: "p = (name, c)" by (cases p)
  show ?case
  proof (cases "q_dependencies c = {}")
    case True
    with Cons.prems(1) p obtain cont s1 where
      rs: "run_step w (q_step c) args conf s = Inr (cont, s1)" and
      rest: "admit w args conf items (to_pop @ [name]) (dict_set name cont running)
               (s1\<lparr>trace := trace s1 @ [Admitted name]\<rparr>) = Inr (to_pop', running', s')"
      by (auto split: sum.splits)
    from run_step_result [OF rs] Cons.prems(2) have "polls_left cont \<noteq> None" by simp
    with Cons.prems(3) dict_set_entries [of name cont running]
    have "\<forall>(pname, c) \<in> set (dict_set name cont running). polls_left c \<noteq> None" by auto
    from Cons.IH [OF rest Cons.prems(2) this] show ?thesis .
  next
    case False
    with Cons.prems p Cons.IH [of to_pop running s] show ?thesis by simp
  qed
qed


lemma admit_events:
  "admit w args conf items to_pop running s = Inr (to_pop', running', s') \<Longrightarrow>
   \<exists>evs. trace s' = trace s @ evs \<and> Slept \<notin> set evs \<and> admitted evs = eligible items \<and>
     length (spawned evs) = length (admitted evs) \<and>
     dispatched evs = steps_of (filter (\<lambda>(name, c). q_dependencies c = {}) items)"
proof (induction items arbitrary: to_pop running s)
  case Nil
  then show ?case by (simp add: eligible_Nil dispatched_def steps_of_def)
next
  case (Cons p items)
  obtain name c where p: "p = (name, c)" by (cases p)
  show ?case
  proof (cases "q_dependencies c = {}")
    case True
    with Cons.prems p obtain cont s1 where
      rs: "run_step w (q_step c) args conf s = Inr (cont, s1)" and
      rest: "admit w args conf items (to_pop @ [name]) (dict_set name cont running)
               (s1\<lparr>trace := trace s1 @ [Admitted name]\<rparr>) = Inr (to_pop', running', s')"
      by (auto split: sum.splits)
    from Cons.IH [OF rest] obtain evs where
      evs: "trace s' = trace s1 @ [Admitted name] @ evs" "Slept \<notin> set evs"
        "admitted evs = eligible items" "length (spawned evs) = length (admitted evs)"
        "dispatched evs = steps_of (filter (\<lambda>(name, c). q_dependencies c = {}) items)"
      by auto
    from run_step_result [OF rs] have r: "trace s1 = trace s @ [Spawned cont]"
      "cstep cont = q_step c" by simp_all
    show ?thesis
    proof (intro exI [of _ "[Spawned cont, Admitted name] @ evs"] conjI)
      show "trace s' = trace s @ [Spawned cont, Admitted name] @ evs"
        using evs(1) r(1) by simp
      show "Slept \<notin> set ([Spawned cont, Admitted name] @ evs)" using evs(2) by simp
      show "admitted ([Spawned cont, Admitted name] @ evs) = eligible (p # items)"
        using evs(3) True p by (simp add: eligible_Cons)
      show "length (spawned ([Spawned cont, Admitted name] @ evs)) =
            length (admitted ([Spawned cont, Admitted name] @ evs))"
        using evs(4) by simp
      show "dispatched ([Spawned cont, Admitted name] @ evs) =
            steps_of (filter (\<lambda>(name, c). q_dependencies c = {}) (p # items))"
        using evs(5) r(2) True p by (simp add: dispatched_def steps_of_def)
    qed
  next
    case False
    with Cons.prems p Cons.IH [of to_pop running s] show ?thesis
      by (simp add: eligible_Cons)
  qed
qed

subsection \<open>Polling\<close>

lemma age_0: "age 0 running = running"
  by (induction running) (auto simp: age_def option.map_ident)

lemma age_age: "age k (age l running) = age (l + k) running"
  by (induction running) (auto simp: age_def option.map_comp comp_def)

lemma age_keys: "map fst (age k running) = map fst running"
  by (induction running) (auto simp: age_def)

lemma age_finite:
  "\<forall>(pname, c) \<in> set running. polls_left c \<noteq> None \<Longrightarrow>
   \<forall>(pname, c) \<in> set (age k running). polls_left c \<noteq> None"
  by (auto simp: age_def)

lemma finished_subset: "set (finished running) \<subseteq> fst ` set running"
  by (auto simp: finished_def)

lemma finished_distinct: "distinct (map fst running) \<Longrightarrow> distinct (finished running)"
  by (simp add: finished_def distinct_map_filter)

lemma sweep_eq: "sweep running = (finished running, age 1 running)"
proof (induction running)
  case Nil
  show ?case by (simp add: finished_def age_def)
next
  case (Cons p running)
  obtain pname c where p: "p = (pname, c)" by (cases p)
  show ?case
  proof (cases "polls_left c")
    case None
    with Cons p show ?thesis by (simp add: finished_def age_def is_finished_def)
  next
    case (Some j)
    with Cons p show ?thesis
      by (cases j) (simp_all add: finished_def age_def is_finished_def)
  qed
qed

lemma finished_none:
  "\<forall>(pname, c) \<in> set running. \<forall>j. polls_left c = Some j \<longrightarrow> 0 < j \<Longrightarrow> finished running = []"
  by (induction running) (auto simp: finished_def)

lemma poll_skip:
  "\<forall>(pname, c) \<in> set running. \<forall>j. polls_left c = Some j \<longrightarrow> k \<le> j \<Longrightarrow>
   poll (k + m) running s = poll m (age k running) (s\<lparr>trace := trace s @ replicate k Slept\<rparr>)"
proof (induction k arbitrary: running s)
  case 0
  show ?case by (simp add: age_0)
next
  case (Suc k)
  from Suc.prems have "finished running = []"
    by (intro finished_none) auto
  then have 1: "poll (Suc k + m) running s =
      poll (k + m) (age 1 running) (s\<lparr>trace := trace s @ [Slept]\<rparr>)"
    by (simp add: sweep_eq)
  from Suc.prems
  have 2: "\<forall>(pname, c) \<in> set (age 1 running). \<forall>j. polls_left c = Some j \<longrightarrow> k \<le> j"
    by (fastforce simp: age_def)
  have 3: "[Slept] @ replicate k Slept = replicate (Suc k) Slept" by simp
  show ?case
    unfolding 1 Suc.IH [OF 2] age_age using 3 by simp
qed

lemma poll_finish:
  "finished running \<noteq> [] \<Longrightarrow>
   poll (Suc m) running s = Inr (finished running, age 1 running, s, m)"
  by (simp add: sweep_eq)

lemma first_finish:
  "running \<noteq> [] \<Longrightarrow> \<forall>(pname, c) \<in> set running. polls_left c \<noteq> None \<Longrightarrow>
   \<exists>k. (\<forall>(pname, c) \<in> set running. \<forall>j. polls_left c = Some j \<longrightarrow> k \<le> j) \<and>
       finished (age k running) \<noteq> []"
proof (induction running rule: list_nonempty_induct)
  case (single p)
  obtain pname c where p: "p = (pname, c)" by (cases p)
  with single obtain j where j: "polls_left c = Some j" by auto
  with p show ?case
    by (intro exI [of _ j]) (simp add: finished_def age_def)
next
  case (cons p running)
  obtain pname c where p: "p = (pname, c)" by (cases p)
  with cons.prems obtain j where j: "polls_left c = Some j" by auto
  from cons obtain k where
    k: "\<forall>(pname, c) \<in> set running. \<forall>j. polls_left c = Some j \<longrightarrow> k \<le> j"
    and f: "finished (age k running) \<noteq> []" by auto
  show ?case
  proof (cases "j \<le> k")
    case True
    with k p j show ?thesis
      by (intro exI [of _ j]) (fastforce simp: finished_def age_def)
  next
    case False
    with k p j f show ?thesis
      by (intro exI [of _ k]) (auto simp: finished_def age_def)
  qed
qed

lemma poll_terminates:
  assumes "running \<noteq> []" and "\<forall>(pname, c) \<in> set running. polls_left c \<noteq> None"
  shows "\<exists>k. \<forall>m. poll (Suc k + m) running s =
           Inr (finished (age k running), age (Suc k) running,
                s\<lparr>trace := trace s @ replicate k Slept\<rparr>, m) \<and>
           finished (age k running) \<noteq> []"
proof -
  from first_finish [OF assms] obtain k where
    k: "\<forall>(pname, c) \<in> set running. \<forall>j. polls_left c = Some j \<longrightarrow> k \<le> j"
    and f: "finished (age k running) \<noteq> []" by blast
  have "poll (Suc k + m) running s =
           Inr (finished (age k running), age (Suc k) running,
                s\<lparr>trace := trace s @ replicate k Slept\<rparr>, m)" for m
  proof -
    have "poll (k + Suc m) running s =
        poll (Suc m) (age k running) (s\<lparr>trace := trace s @ replicate k Slept\<rparr>)"
      by (rule poll_skip [OF k])
    also have "\<dots> = Inr (finished (age k running), age 1 (age k running),
                s\<lparr>trace := trace s @ replicate k Slept\<rparr>, m)"
      by (rule poll_finish [OF f])
    finally show ?thesis by (simp add: age_age)
  qed
  with f show ?thesis by blast
qed

subsection \<open>Completion\<close>

lemma remove_local_ok:
  "os_remove w (cid c) = None \<Longrightarrow>
   \<exists>s' evs. remove_local w c s = Inr s' \<and> tmpdir s' = tmpdir s \<and>
     spawn_count s' = spawn_count s \<and> trace s' = trace s @ evs \<and> set evs \<subseteq> range Removed"
  by (auto simp: remove_local_def split: option.splits)

lemma removed_quiet: "set evs \<subseteq> range Removed \<Longrightarrow> admitted evs = [] \<and> spawned evs = []"
  by (induction evs) auto

lemma finish_one_ok:
  assumes c: "map_of running pname = Some c" and tmp: "tmpdir s = Some files"
    and opn: "open_write w pname = Inr t" and rm: "os_remove w (cid c) = None"
  shows "\<exists>s' files' evs. finish_one w pname running queued s =
             Inr (dict_del pname running, release pname queued, s') \<and>
           tmpdir s' = Some files' \<and> dom files' = dom files \<union> scratch_files w [pname] \<and>
           trace s' = trace s @ evs \<and> admitted evs = [] \<and> spawned evs = [] \<and>
           spawn_count s' = spawn_count s"
proof -
  let ?out = "output_of w (cid c)"
  obtain s0 files0 where o: "open_w w pname s = Inr (t, s0)" and t0: "tmpdir s0 = Some files0"
    and d0: "dom files0 = dom files \<union> scratch_files w [pname]"
    and tr0: "trace s0 = trace s" and c0: "spawn_count s0 = spawn_count s"
    using tmp opn by (cases t) (auto simp: open_w_def scratch_files_def)
  let ?s1 = "write_out t pname ?out s0"
  obtain files1 where t1: "tmpdir ?s1 = Some files1" and d1: "dom files1 = dom files0"
    and tr1: "trace ?s1 = trace s0 @ [Persisted pname ?out]"
    and c1: "spawn_count ?s1 = spawn_count s0"
    using t0 d0 opn by (cases t) (auto simp: write_out_def scratch_files_def)
  from remove_local_ok [OF rm, of ?s1] obtain s2 evs where
    r: "remove_local w c ?s1 = Inr s2" and t2: "tmpdir s2 = tmpdir ?s1"
    and c2: "spawn_count s2 = spawn_count ?s1" and tr2: "trace s2 = trace ?s1 @ evs"
    and rem: "set evs \<subseteq> range Removed" by blast
  let ?s3 = "s2\<lparr>trace := trace s2 @ [Released pname]\<rparr>"
  have "finish_one w pname running queued s =
      Inr (dict_del pname running, release pname queued, ?s3)"
    using c o r by (simp add: finish_one_def Let_def)
  moreover have "trace ?s3 = trace s @ (Persisted pname ?out # evs @ [Released pname])"
    using tr0 tr1 tr2 by simp
  moreover have "admitted (Persisted pname ?out # evs @ [Released pname]) = []"
    and "spawned (Persisted pname ?out # evs @ [Released pname]) = []"
    using removed_quiet [OF rem] by (simp_all add: admitted_append spawned_append)
  ultimately show ?thesis using t1 t2 d1 d0 c0 c1 c2 by auto
qed

lemma scratch_files_Cons:
  "scratch_files w (pname # names) = scratch_files w [pname] \<union> scratch_files w names"
  by (auto simp: scratch_files_def)

lemma finish_all_ok:
  assumes "distinct to_pop" and "set to_pop \<subseteq> fst ` set running" and "tmpdir s = Some files"
    and "\<forall>pname \<in> set to_pop. \<exists>t. open_write w pname = Inr t" and rm: "\<forall>i. os_remove w i = None"
  shows "\<exists>s' files' evs. finish_all w to_pop running queued s =
             Inr (filter (\<lambda>p. fst p \<notin> set to_pop) running, discard_all to_pop queued, s') \<and>
           tmpdir s' = Some files' \<and> dom files' = dom files \<union> scratch_files w to_pop \<and>
           trace s' = trace s @ evs \<and> admitted evs = [] \<and> spawned evs = [] \<and>
           spawn_count s' = spawn_count s"
  using assms(1-4)
proof (induction to_pop arbitrary: running queued s files)
  case Nil
  show ?case using Nil by (simp add: discard_all_def scratch_files_def)
next
  case (Cons pname to_pop)
  from Cons.prems obtain c where c: "map_of running pname = Some c"
    by (cases "map_of running pname") (auto simp: map_of_eq_None_iff)
  from Cons.prems(4) obtain t where t: "open_write w pname = Inr t" by auto
  from rm have rmc: "os_remove w (cid c) = None" by simp
  from finish_one_ok [OF c Cons.prems(3) t rmc, of queued] obtain s1 files1 evs1 where
    1: "finish_one w pname running queued s =
          Inr (dict_del pname running, release pname queued, s1)"
    and t1: "tmpdir s1 = Some files1"
    and d1: "dom files1 = dom files \<union> scratch_files w [pname]"
    and e1: "trace s1 = trace s @ evs1" "admitted evs1 = []" "spawned evs1 = []"
    and c1: "spawn_count s1 = spawn_count s" by blast
  from Cons.prems have d: "distinct to_pop"
    and sub: "set to_pop \<subseteq> fst ` set (dict_del pname running)"
    and opn: "\<forall>pname \<in> set to_pop. \<exists>t. open_write w pname = Inr t"
    by (force simp: dict_del_def)+
  from Cons.IH [OF d sub t1 opn, of "release pname queued"] obtain s' files' evs where
    2: "finish_all w to_pop (dict_del pname running) (release pname queued) s1 =
          Inr (filter (\<lambda>p. fst p \<notin> set to_pop) (dict_del pname running),
               discard_all to_pop (release pname queued), s')"
    and t2: "tmpdir s' = Some files'"
    and d2: "dom files' = dom files1 \<union> scratch_files w to_pop"
    and e2: "trace s' = trace s1 @ evs" "admitted evs = []" "spawned evs = []"
    and c2: "spawn_count s' = spawn_count s1" by blast
  have f: "filter (\<lambda>p. fst p \<notin> set to_pop) (dict_del pname running) =
           filter (\<lambda>p. fst p \<notin> set (pname # to_pop)) running"
    by (auto simp: dict_del_def intro: filter_cong)
  have q: "discard_all to_pop (release pname queued) = discard_all (pname # to_pop) queued"
  proof -
    have "A - {pname} - set to_pop = A - insert pname (set to_pop)" for A :: "string set"
      by auto
    then show ?thesis by (induction queued) (auto simp: discard_all_def release_def)
  qed
  have "finish_all w (pname # to_pop) running queued s =
      Inr (filter (\<lambda>p. fst p \<notin> set (pname # to_pop)) running,
           discard_all (pname # to_pop) queued, s')"
    using 1 2 f q by simp
  moreover have "dom files' = dom files \<union> scratch_files w (pname # to_pop)"
    using d1 d2 scratch_files_Cons [of w pname to_pop] by auto
  moreover have "trace s' = trace s @ (evs1 @ evs)" using e1(1) e2(1) by simp
  moreover have "admitted (evs1 @ evs) = []" "spawned (evs1 @ evs) = []"
    using e1 e2 by (simp_all add: admitted_append spawned_append)
  ultimately show ?case using t2 c1 c2 by (intro exI [of _ s'] exI [of _ files'] exI [of _ "evs1 @ evs"]) simp
qed

subsection \<open>Termination\<close>

lemma discard_all_keys: "map fst (discard_all names queued) = map fst queued"
  by (induction queued) (auto simp: discard_all_def)

lemma discard_all_entries:
  "(qname, c') \<in> set (discard_all names queued) \<Longrightarrow>
   \<exists>c. (qname, c) \<in> set queued \<and> q_dependencies c' = q_dependencies c - set names \<and>
       q_step c' = q_step c"
  by (auto simp: discard_all_def)

lemma admitted_sleeps: "admitted (replicate k Slept) = []"
  by (induction k) auto

lemma eligible_mem:
  "(qname, c) \<in> set queued \<Longrightarrow> q_dependencies c = {} \<Longrightarrow> qname \<in> set (eligible queued)"
  by (force simp: eligible_def)

lemma keys_image: "fst ` set d = set (map fst d)"
  by simp

lemma filter_keys: "fst ` set (filter (\<lambda>p. fst p \<notin> S) d) = fst ` set d - S"
  by force

lemma acyclic_minimal:
  assumes "acyclic G" and "finite Q" and "Q \<noteq> {}"
  shows "\<exists>z \<in> Q. \<forall>y \<in> Q. (y, z) \<notin> G"
proof -
  have "finite (G \<inter> Q \<times> Q)" using assms(2) by simp
  moreover have "acyclic (G \<inter> Q \<times> Q)"
    using assms(1) by (rule acyclic_subset) simp
  ultimately have wf: "wf (G \<inter> Q \<times> Q)" by (rule finite_acyclic_wf)
  from assms(3) obtain x where "x \<in> Q" by auto
  from wfE_min [OF wf this] obtain z where "z \<in> Q"
    and "\<And>y. (y, z) \<in> G \<inter> Q \<times> Q \<Longrightarrow> y \<notin> Q" by blast
  then show ?thesis by blast
qed

lemma round_measure:
  fixes Q R T T2 :: "string set"
  assumes "finite Q" and "finite R" and "T \<subseteq> Q" and "Q \<inter> R = {}"
    and "T2 \<subseteq> R \<union> T" and "T2 \<noteq> {}"
  shows "card (Q - T) + card ((R \<union> T) - T2) < card Q + card R"
proof -
  have fT: "finite T" using assms(1,3) by (rule rev_finite_subset)
  have 1: "card (Q - T) = card Q - card T" using fT assms(3) by (simp add: card_Diff_subset)
  have 2: "card T \<le> card Q" using assms(1,3) by (simp add: card_mono)
  have "T \<inter> R = {}" using assms(3,4) by auto
  then have 3: "card (R \<union> T) = card R + card T"
    using assms(2) fT by (simp add: card_Un_disjoint Int_commute)
  have "(R \<union> T) - T2 \<subset> R \<union> T" using assms(5,6) by auto
  then have 4: "card ((R \<union> T) - T2) < card (R \<union> T)"
    using assms(2) fT by (intro psubset_card_mono) auto
  from 1 2 3 4 show ?thesis by linarith
qed

lemma steps_of_discard_all: "steps_of (discard_all names queued) = steps_of queued"
  by (induction queued) (auto simp: steps_of_def discard_all_def)

lemma steps_of_split:
  assumes "distinct (map fst queued)"
  shows "set (steps_of (filter (\<lambda>(name, c). q_dependencies c = {}) queued)) \<union>
         set (steps_of (filter (\<lambda>p. fst p \<notin> set (eligible queued)) queued)) =
         set (steps_of queued)"
proof -
  have "fst p \<notin> set (eligible queued)"
    if "p \<in> set queued" and "\<not> (case p of (name, c) \<Rightarrow> q_dependencies c = {})" for p
  proof
    assume "fst p \<in> set (eligible queued)"
    then obtain c' where "(fst p, c') \<in> set queued" and "q_dependencies c' = {}"
      by (auto simp: eligible_def)
    with assms that(1) have "c' = snd p"
      by (metis eq_key_imp_eq_value prod.collapse)
    with \<open>q_dependencies c' = {}\<close> that(2) show False by (cases p) simp
  qed
  then have "p \<in> set (filter (\<lambda>(name, c). q_dependencies c = {}) queued) \<or>
      p \<in> set (filter (\<lambda>p. fst p \<notin> set (eligible queued)) queued)" if "p \<in> set queued" for p
    using that by auto
  then have "set queued = set (filter (\<lambda>(name, c). q_dependencies c = {}) queued) \<union>
      set (filter (\<lambda>p. fst p \<notin> set (eligible queued)) queued)"
    by auto
  then have "set (steps_of queued) =
      (\<lambda>(qname, c). (qname, q_step c)) ` (set (filter (\<lambda>(name, c). q_dependencies c = {}) queued) \<union>
      set (filter (\<lambda>p. fst p \<notin> set (eligible queued)) queued))"
    unfolding steps_of_def by (simp only: set_map)
  then show ?thesis
    unfolding steps_of_def by (simp only: set_map image_Un)
qed

lemma admitted_quiet: "admitted (replicate k Slept @ evs) = admitted evs"
  by (simp add: admitted_append admitted_sleeps)

lemma spawned_sleeps: "spawned (replicate k Slept) = []"
  by (induction k) auto

text \<open>
  One turn of the loop \<^verbatim>\<open>while len(queued) > 0\<close> in which something is running after
  admission and nothing fails: after finitely many sweeps the runs that report finished
  are completed and the loop goes on with the rest.
\<close>

lemma scheduler_round:
  assumes ne: "queued \<noteq> []"
    and adm: "admit w args conf queued [] running s = Inr (to_pop, r1, s1)"
    and r1: "r1 \<noteq> []" and live: "\<forall>(pname, c) \<in> set r1. polls_left c \<noteq> None"
    and d1: "distinct (map fst r1)" and tmp: "tmpdir s1 = Some files"
    and opn: "\<forall>pname \<in> fst ` set r1. \<exists>t. open_write w pname = Inr t"
    and rm: "\<forall>i. os_remove w i = None"
  obtains k s3 files' evs where "finished (age k r1) \<noteq> []"
    and "\<And>m. scheduler (Suc k + m) w args conf running queued s =
           scheduler m w args conf
             (filter (\<lambda>p. fst p \<notin> set (finished (age k r1))) (age (Suc k) r1))
             (discard_all (finished (age k r1)) (del_all to_pop queued)) s3"
    and "tmpdir s3 = Some files'"
    and "dom files' = dom files \<union> scratch_files w (finished (age k r1))"
    and "trace s3 = trace s1 @ evs" and "admitted evs = []" and "spawned evs = []"
    and "spawn_count s3 = spawn_count s1"
proof -
  from poll_terminates [OF r1 live, of s1] obtain k where
    pl: "\<And>m. poll (Suc k + m) r1 s1 =
           Inr (finished (age k r1), age (Suc k) r1,
                s1\<lparr>trace := trace s1 @ replicate k Slept\<rparr>, m)"
    and ne2: "finished (age k r1) \<noteq> []" by blast
  let ?T2 = "finished (age k r1)" and ?r2 = "age (Suc k) r1"
  let ?s2 = "s1\<lparr>trace := trace s1 @ replicate k Slept\<rparr>"
  let ?q1 = "del_all to_pop queued"
  have keys2: "fst ` set ?r2 = fst ` set r1" unfolding keys_image age_keys ..
  have T2sub: "set ?T2 \<subseteq> fst ` set ?r2"
    using finished_subset [of "age k r1"] age_keys [of k r1] age_keys [of "Suc k" r1]
    unfolding keys_image by simp
  have dT2: "distinct ?T2"
    by (rule finished_distinct) (simp add: age_keys d1)
  have t2: "tmpdir ?s2 = Some files" using tmp by simp
  have o2: "\<forall>pname \<in> set ?T2. \<exists>t. open_write w pname = Inr t"
  proof
    fix pname
    assume "pname \<in> set ?T2"
    with T2sub have "pname \<in> fst ` set ?r2" by (rule subsetD)
    then have "pname \<in> fst ` set r1" unfolding keys2 .
    with opn show "\<exists>t. open_write w pname = Inr t" by (rule bspec)
  qed
  from finish_all_ok [OF dT2 T2sub t2 o2 rm, of ?q1] obtain s3 files' evs where
    fa: "finish_all w ?T2 ?r2 ?q1 ?s2 =
           Inr (filter (\<lambda>p. fst p \<notin> set ?T2) ?r2, discard_all ?T2 ?q1, s3)"
    and f3: "tmpdir s3 = Some files'" "dom files' = dom files \<union> scratch_files w ?T2"
      "trace s3 = trace ?s2 @ evs" "admitted evs = []" "spawned evs = []"
      "spawn_count s3 = spawn_count ?s2" by blast
  have run: "scheduler (Suc k + m) w args conf running queued s =
      scheduler m w args conf (filter (\<lambda>p. fst p \<notin> set ?T2) ?r2) (discard_all ?T2 ?q1) s3" for m
    by (subst scheduler.simps) (simp only: ne adm pl fa if_False sum.case prod.case)
  show ?thesis
  proof (rule that [of k s3 files' "replicate k Slept @ evs"])
    show "finished (age k r1) \<noteq> []" by (rule ne2)
    show "scheduler (Suc k + m) w args conf running queued s =
           scheduler m w args conf
             (filter (\<lambda>p. fst p \<notin> set (finished (age k r1))) (age (Suc k) r1))
             (discard_all (finished (age k r1)) (del_all to_pop queued)) s3" for m
      by (rule run)
    show "tmpdir s3 = Some files'" by (rule f3(1))
    show "dom files' = dom files \<union> scratch_files w (finished (age k r1))" by (rule f3(2))
    show "trace s3 = trace s1 @ replicate k Slept @ evs" using f3(3) by simp
    show "admitted (replicate k Slept @ evs) = []"
      using f3(4) by (simp add: admitted_append admitted_sleeps)
    show "spawned (replicate k Slept @ evs) = []"
      using f3(5) by (simp add: spawned_append spawned_sleeps)
    show "spawn_count s3 = spawn_count s1" using f3(6) by simp
  qed
qed

lemma scheduler_terminates:
  assumes G: "acyclic G" and fin: "\<forall>i. finish_after w i \<noteq> None"
    and rm: "\<forall>i. os_remove w i = None"
  shows "distinct (map fst queued) \<Longrightarrow> distinct (map fst running) \<Longrightarrow>
     fst ` set queued \<inter> fst ` set running = {} \<Longrightarrow>
     \<forall>(qname, c) \<in> set queued. q_dependencies c \<subseteq> fst ` set queued \<union> fst ` set running \<Longrightarrow>
     \<forall>(qname, c) \<in> set queued. \<forall>d \<in> q_dependencies c. (d, qname) \<in> G \<Longrightarrow>
     \<forall>(qname, c) \<in> set queued. q_step c \<in> dom (conf_steps conf) \<Longrightarrow>
     \<forall>(pname, c) \<in> set running. polls_left c \<noteq> None \<Longrightarrow>
     \<forall>pname \<in> fst ` set queued \<union> fst ` set running. \<exists>t. open_write w pname = Inr t \<Longrightarrow>
     tmpdir s \<noteq> None \<Longrightarrow>
     \<exists>fuel s' evs. scheduler fuel w args conf running queued s = Returned s' \<and>
        trace s' = trace s @ evs \<and> distinct (admitted evs) \<and>
        set (admitted evs) = fst ` set queued \<and>
        length (spawned evs) = length (admitted evs) \<and>
        set (dispatched evs) = set (steps_of queued) \<and>
        spawn_count s' = spawn_count s + length (admitted evs)"
proof (induction "card (fst ` set queued) + card (fst ` set running)"
    arbitrary: running queued s rule: less_induct)
  case less
  note dq = less.prems(1) and dr = less.prems(2) and disj = less.prems(3)
    and deps = less.prems(4) and rank = less.prems(5) and conf = less.prems(6)
    and live = less.prems(7) and opn = less.prems(8) and tmp = less.prems(9)
  show ?case
  proof (cases "queued = []")
    case True
    then have "scheduler 0 w args conf running queued s = Returned s"
      by (subst scheduler.simps) simp
    with True show ?thesis
      by (intro exI [of _ 0] exI [of _ s] exI [of _ "[]"])
         (simp add: dispatched_def steps_of_def)
  next
    case False
    let ?Q = "fst ` set queued" and ?R = "fst ` set running"
    let ?T = "eligible queued"
    let ?el = "filter (\<lambda>(name, c). q_dependencies c = {}) queued"
    from admit_total [OF conf] obtain to_pop r1 s1 where
      adm: "admit w args conf queued [] running s = Inr (to_pop, r1, s1)" by blast
    from admit_result [OF adm] have tp: "to_pop = ?T"
      and k1: "fst ` set r1 = ?R \<union> set ?T"
      and t1: "tmpdir s1 = tmpdir s"
      and c1: "spawn_count s1 = spawn_count s + length ?T" by simp_all
    from admit_events [OF adm] obtain ev1 where
      e1: "trace s1 = trace s @ ev1" "admitted ev1 = ?T"
        "length (spawned ev1) = length (admitted ev1)" "dispatched ev1 = steps_of ?el"
      by blast
    have d1: "distinct (map fst r1)" by (rule admit_distinct [OF adm dr])
    have l1: "\<forall>(pname, c) \<in> set r1. polls_left c \<noteq> None"
      by (rule admit_finite [OF adm fin live])
    have TQ: "set ?T \<subseteq> ?Q" by (rule eligible_subset)
    have dT: "distinct ?T" by (rule eligible_distinct [OF dq])
    have ne1: "r1 \<noteq> []"
    proof (cases "running = []")
      case False
      then have "?R \<noteq> {}" by simp
      with k1 show ?thesis by auto
    next
      case True
      from \<open>queued \<noteq> []\<close> have "?Q \<noteq> {}" by simp
      from acyclic_minimal [OF G _ this] obtain z where zQ: "z \<in> ?Q"
        and zmin: "\<forall>y \<in> ?Q. (y, z) \<notin> G" by auto
      from zQ obtain c where zc: "(z, c) \<in> set queued" by auto
      have "q_dependencies c = {}"
      proof (rule ccontr)
        assume "q_dependencies c \<noteq> {}"
        then obtain d where d: "d \<in> q_dependencies c" by auto
        with deps zc True have "d \<in> ?Q" by auto
        moreover from rank zc d have "(d, z) \<in> G" by auto
        ultimately show False using zmin by blast
      qed
      from eligible_mem [OF zc this] have "set ?T \<noteq> {}" by auto
      with k1 show ?thesis by auto
    qed
    from tmp obtain files where "tmpdir s = Some files" by (cases "tmpdir s") simp_all
    with t1 have tmp1: "tmpdir s1 = Some files" by simp
    have o1: "\<forall>pname \<in> fst ` set r1. \<exists>t. open_write w pname = Inr t"
    proof
      fix pname
      assume "pname \<in> fst ` set r1"
      then have "pname \<in> ?R \<union> set ?T" unfolding k1 .
      with TQ have "pname \<in> ?Q \<union> ?R" by (simp only: Un_iff subset_iff) (elim disjE; simp)
      with opn show "\<exists>t. open_write w pname = Inr t" by (rule bspec)
    qed
    obtain k s3 files3 ev2 where
      ne2: "finished (age k r1) \<noteq> []"
      and run: "\<And>m. scheduler (Suc k + m) w args conf running queued s =
           scheduler m w args conf
             (filter (\<lambda>p. fst p \<notin> set (finished (age k r1))) (age (Suc k) r1))
             (discard_all (finished (age k r1)) (del_all to_pop queued)) s3"
      and t3: "tmpdir s3 = Some files3"
      and d3: "dom files3 = dom files \<union> scratch_files w (finished (age k r1))"
      and e2: "trace s3 = trace s1 @ ev2" "admitted ev2 = []" "spawned ev2 = []"
      and c3: "spawn_count s3 = spawn_count s1"
      by (rule scheduler_round [OF False adm ne1 l1 d1 tmp1 o1 rm]) (rule that)
    let ?T2 = "finished (age k r1)" and ?r2 = "age (Suc k) r1"
    let ?q1 = "del_all to_pop queued"
    have kr2: "map fst ?r2 = map fst r1" by (rule age_keys)
    have T2sub: "set ?T2 \<subseteq> fst ` set ?r2"
      using finished_subset [of "age k r1"] age_keys [of k r1] kr2
      unfolding keys_image by simp
    let ?r3 = "filter (\<lambda>p. fst p \<notin> set ?T2) ?r2" and ?q3 = "discard_all ?T2 ?q1"
    have q1: "?q1 = filter (\<lambda>p. fst p \<notin> set ?T) queued"
      by (simp add: del_all_filter tp)
    have kq3: "map fst ?q3 = map fst (filter (\<lambda>p. fst p \<notin> set ?T) queued)"
      by (simp add: discard_all_keys q1)
    have Q3: "fst ` set ?q3 = ?Q - set ?T"
      unfolding keys_image kq3 unfolding keys_image [symmetric] by (rule filter_keys)
    have "fst ` set ?r2 = fst ` set r1" unfolding keys_image kr2 ..
    then have R3: "fst ` set ?r3 = (?R \<union> set ?T) - set ?T2"
      using k1 by (simp only: filter_keys)
    have dq3: "distinct (map fst ?q3)"
      unfolding kq3 by (rule distinct_map_filter [OF dq])
    have dr3: "distinct (map fst ?r3)"
      by (rule distinct_map_filter) (simp add: kr2 d1)
    have disj3: "fst ` set ?q3 \<inter> fst ` set ?r3 = {}"
      unfolding Q3 R3 using disj by auto
    have deps3: "\<forall>(qname, c) \<in> set ?q3. q_dependencies c \<subseteq> fst ` set ?q3 \<union> fst ` set ?r3"
    proof -
      have "x \<in> fst ` set ?q3 \<union> fst ` set ?r3"
        if "(qname, c') \<in> set ?q3" and x: "x \<in> q_dependencies c'" for qname c' x
      proof -
        from discard_all_entries [OF that(1)] obtain c where
          c: "(qname, c) \<in> set ?q1" and dc: "q_dependencies c' = q_dependencies c - set ?T2"
          by blast
        from c q1 have "(qname, c) \<in> set queued" by simp
        with deps x dc have "x \<in> ?Q \<union> ?R" and "x \<notin> set ?T2" by auto
        then show ?thesis
          unfolding Q3 R3 by auto
      qed
      then show ?thesis by blast
    qed
    have rank3: "\<forall>(qname, c) \<in> set ?q3. \<forall>d \<in> q_dependencies c. (d, qname) \<in> G"
    proof -
      have "(d, qname) \<in> G"
        if "(qname, c') \<in> set ?q3" and d: "d \<in> q_dependencies c'" for qname c' d
      proof -
        from discard_all_entries [OF that(1)] obtain c where
          c: "(qname, c) \<in> set ?q1" and dc: "q_dependencies c' = q_dependencies c - set ?T2"
          by blast
        from c q1 have "(qname, c) \<in> set queued" by simp
        with rank d dc show ?thesis by auto
      qed
      then show ?thesis by blast
    qed
    have conf3: "\<forall>(qname, c) \<in> set ?q3. q_step c \<in> dom (conf_steps conf)"
    proof -
      have "q_step c' \<in> dom (conf_steps conf)" if "(qname, c') \<in> set ?q3" for qname c'
      proof -
        from discard_all_entries [OF that] obtain c where
          c: "(qname, c) \<in> set ?q1" and sc: "q_step c' = q_step c" by blast
        from c q1 have "(qname, c) \<in> set queued" by simp
        with conf sc show ?thesis by auto
      qed
      then show ?thesis by blast
    qed
    have live3: "\<forall>(pname, c) \<in> set ?r3. polls_left c \<noteq> None"
      using age_finite [OF l1, of "Suc k"] by auto
    have opn3: "\<forall>pname \<in> fst ` set ?q3 \<union> fst ` set ?r3. \<exists>t. open_write w pname = Inr t"
    proof
      fix pname
      assume "pname \<in> fst ` set ?q3 \<union> fst ` set ?r3"
      then have "pname \<in> (?Q - set ?T) \<union> ((?R \<union> set ?T) - set ?T2)" unfolding Q3 R3 .
      with TQ have "pname \<in> ?Q \<union> ?R"
        by (simp only: Un_iff Diff_iff subset_iff) (elim disjE conjE; simp)
      with opn show "\<exists>t. open_write w pname = Inr t" by (rule bspec)
    qed
    have tmp3: "tmpdir s3 \<noteq> None" using t3 by simp
    have "set ?T2 \<subseteq> ?R \<union> set ?T"
      using T2sub \<open>fst ` set ?r2 = fst ` set r1\<close> k1 by simp
    moreover have "set ?T2 \<noteq> {}" using ne2 by simp
    ultimately have less: "card (fst ` set ?q3) + card (fst ` set ?r3)
        < card ?Q + card ?R"
      unfolding Q3 R3 using TQ disj by (intro round_measure) auto
    from less.hyps [OF less dq3 dr3 disj3 deps3 rank3 conf3 live3 opn3 tmp3]
    obtain fuel' s' evs' where
      run': "scheduler fuel' w args conf ?r3 ?q3 s3 = Returned s'"
      and e3: "trace s' = trace s3 @ evs'" "distinct (admitted evs')"
        "set (admitted evs') = fst ` set ?q3" "length (spawned evs') = length (admitted evs')"
        "set (dispatched evs') = set (steps_of ?q3)"
      and cxs': "spawn_count s' = spawn_count s3 + length (admitted evs')" by blast
    let ?evs = "ev1 @ ev2 @ evs'"
    have adm_all: "admitted ?evs = ?T @ admitted evs'"
      using e1(2) e2(2) by (simp add: admitted_append)
    have bal2: "length (spawned ev2) = length (admitted ev2)" using e2 by simp
    have disp: "dispatched ?evs = steps_of ?el @ dispatched evs'"
      using e1(4) e2(2,3)
      by (simp add: dispatched_append [OF e1(3)] dispatched_append [OF bal2])
         (simp add: dispatched_def)
    have "scheduler (Suc k + fuel') w args conf running queued s = Returned s'"
      using run [of fuel'] run' by simp
    moreover have "trace s' = trace s @ ?evs" using e1(1) e2(1) e3(1) by simp
    moreover have "distinct (admitted ?evs)"
      unfolding adm_all using dT e3(2,3) Q3 by auto
    moreover have "set (admitted ?evs) = ?Q"
      unfolding adm_all using e3(3) Q3 TQ by auto
    moreover have "length (spawned ?evs) = length (admitted ?evs)"
      using e1(3) e2(2,3) e3(4) by (simp add: admitted_append spawned_append)
    moreover have "set (dispatched ?evs) = set (steps_of queued)"
      unfolding disp using e3(5) steps_of_split [OF dq]
      by (simp add: steps_of_discard_all q1)
    moreover have "spawn_count s' = spawn_count s + length (admitted ?evs)"
      unfolding adm_all using cxs' c3 c1 by simp
    ultimately show ?thesis by blast
  qed
qed


lemma dict_set_fresh: "k \<notin> fst ` set d \<Longrightarrow> dict_set k v d = d @ [(k, v)]"
  by (induction d) auto

lemma prepare_queue_distinct_names:
  "distinct (map dag_name cs) \<Longrightarrow> fst ` set queued \<inter> dag_name ` set cs = {} \<Longrightarrow>
   prepare_queue cs queued =
     queued @ map (\<lambda>c. (dag_name c,
       \<lparr>q_step = dag_step c, q_dependencies = set (dag_dependencies c)\<rparr>)) cs"
proof (induction cs arbitrary: queued)
  case Nil
  show ?case by simp
next
  case (Cons c cs)
  from Cons.prems have fresh: "dag_name c \<notin> fst ` set queued" by auto
  let ?q = "queued @ [(dag_name c,
      \<lparr>q_step = dag_step c, q_dependencies = set (dag_dependencies c)\<rparr>)]"
  from Cons.prems have "distinct (map dag_name cs)"
    and "fst ` set ?q \<inter> dag_name ` set cs = {}" by auto
  from Cons.IH [OF this] show ?case by (simp add: dict_set_fresh [OF fresh])
qed

lemma steps_of_distinct_names:
  "distinct (map dag_name cs) \<Longrightarrow>
   steps_of (prepare_queue cs []) = map (\<lambda>c. (dag_name c, dag_step c)) cs"
  by (simp add: prepare_queue_distinct_names steps_of_def comp_def)

text \<open>
  Claim C1 as stated fails. In the pipeline of a step named \<^verbatim>\<open>x/y\<close> and a step \<open>B\<close>
  that depends on it, the graph is acyclic, the declared dependency is a step of the
  DAG and every container finishes; but the output of \<^verbatim>\<open>x/y\<close> cannot be written
  (\<^verbatim>\<open>open\<close> raises, there being no directory \<^verbatim>\<open>x\<close> in the scratch directory), the
  run ends with that exception, and \<open>B\<close> is never dispatched, however many sweeps are
  allowed.
\<close>

theorem dispatch_once_counterexample:
  "acyclic (depends_on (conf_dag slash_conf)) \<and>
   list_all (\<lambda>c. set (dag_dependencies c) \<subseteq> dag_name ` set (conf_dag slash_conf))
     (conf_dag slash_conf) \<and>
   (\<forall>i. finish_after example_world i \<noteq> None) \<and>
   run_pipeline 5 example_world example_args slash_conf fresh_run =
     Raised (OSError ''FileNotFoundError'')
       \<lparr>trace = [Spawned \<lparr>cid = 0, ctype = ''local'', cstep = ''a'', cfile = ''pipeline.yaml'',
                   cworkdir = ''.'', cenvlist = [], coutput = None, polls_left = Some 0\<rparr>,
                 Admitted ''x/y''],
        spawn_count = 1, tmpdir = Some Map.empty\<rparr> \<and>
   \<not> (\<exists>fuel. ''B'' \<in> set (admitted (trace (state_of
          (run_pipeline fuel example_world example_args slash_conf fresh_run)))))"
proof -
  have 1: "acyclic (depends_on (conf_dag slash_conf))"
    by (rule acyclicI_order [where f = "\<lambda>n. if n = ''B'' then 0 else (1::nat)"])
       (auto simp: depends_on_def slash_conf_def)
  have 2: "list_all (\<lambda>c. set (dag_dependencies c) \<subseteq> dag_name ` set (conf_dag slash_conf))
     (conf_dag slash_conf)"
    by (simp add: slash_conf_def)
  have 3: "\<forall>i. finish_after example_world i \<noteq> None" by (simp add: example_world_def)
  have 4: "run_pipeline 5 example_world example_args slash_conf fresh_run =
     Raised (OSError ''FileNotFoundError'')
       \<lparr>trace = [Spawned \<lparr>cid = 0, ctype = ''local'', cstep = ''a'', cfile = ''pipeline.yaml'',
                   cworkdir = ''.'', cenvlist = [], coutput = None, polls_left = Some 0\<rparr>,
                 Admitted ''x/y''],
        spawn_count = 1, tmpdir = Some Map.empty\<rparr>"
    by (simp add: eval_defs)
  have 5: "''B'' \<notin> set (admitted (trace (state_of
          (run_pipeline fuel example_world example_args slash_conf fresh_run))))" for fuel
    by (cases fuel) (simp_all add: eval_defs)
  from 1 2 3 4 5 show ?thesis by blast
qed

text \<open>
  Claim C1, amended. For a DAG whose dependency graph is acyclic, whose declared
  dependencies all name steps of the DAG and whose steps are all configured, in a run
  with a scratch directory where every step name can be opened for writing, the
  removal of a local output file does not fail and every spawned container eventually
  reports finished, \<^verbatim>\<open>run_pipeline\<close> returns after finitely many sweeps. The names
  admitted during the run are the names of the DAG, each exactly once (the list of
  admitted names has no repetition); one container is spawned per admission, and it is
  spawned for the step that the queue holds for the admitted name (for a DAG without
  repeated names, the step of its entry: lemma \<open>steps_of_distinct_names\<close>).
\<close>

theorem run_pipeline_dispatches_once:
  assumes "acyclic (depends_on (conf_dag conf))"
    and "\<forall>c \<in> set (conf_dag conf). set (dag_dependencies c) \<subseteq> dag_name ` set (conf_dag conf)"
    and "\<forall>c \<in> set (conf_dag conf). dag_step c \<in> dom (conf_steps conf)"
    and "\<forall>i. finish_after w i \<noteq> None"
    and "tmpdir s \<noteq> None"
    and "\<forall>c \<in> set (conf_dag conf). \<exists>t. open_write w (dag_name c) = Inr t"
    and "\<forall>i. os_remove w i = None"
  shows "\<exists>fuel s' evs. run_pipeline fuel w args conf s = Returned s' \<and>
           trace s' = trace s @ evs \<and> distinct (admitted evs) \<and>
           set (admitted evs) = dag_name ` set (conf_dag conf) \<and>
           length (spawned evs) = length (admitted evs) \<and>
           set (dispatched evs) = set (steps_of (prepare_queue (conf_dag conf) [])) \<and>
           spawn_count s' = spawn_count s + length (admitted evs)"
proof -
  let ?q = "prepare_queue (conf_dag conf) []"
  have keys: "fst ` set ?q = dag_name ` set (conf_dag conf)"
    by (simp add: prepare_queue_keys)
  have entry: "\<exists>d \<in> set (conf_dag conf). qname = dag_name d \<and>
      c = \<lparr>q_step = dag_step d, q_dependencies = set (dag_dependencies d)\<rparr>"
    if "(qname, c) \<in> set ?q" for qname c
    using prepare_queue_entries [OF that] by simp
  have 1: "distinct (map fst ?q)" by (rule prepare_queue_distinct) simp
  have 2: "distinct (map fst ([] :: runs))" by simp
  have 3: "fst ` set ?q \<inter> fst ` set ([] :: runs) = {}" by simp
  have 4: "\<forall>(qname, c) \<in> set ?q. q_dependencies c \<subseteq> fst ` set ?q \<union> fst ` set ([] :: runs)"
    using entry assms(2) unfolding keys by fastforce
  have 5: "\<forall>(qname, c) \<in> set ?q. \<forall>d \<in> q_dependencies c. (d, qname) \<in> depends_on (conf_dag conf)"
    using entry unfolding depends_on_def by fastforce
  have 6: "\<forall>(qname, c) \<in> set ?q. q_step c \<in> dom (conf_steps conf)"
    using entry assms(3) by fastforce
  have 7: "\<forall>(pname, c) \<in> set ([] :: runs). polls_left c \<noteq> None" by simp
  have 8: "\<forall>pname \<in> fst ` set ?q \<union> fst ` set ([] :: runs). \<exists>t. open_write w pname = Inr t"
    unfolding keys using assms(6) by simp
  from scheduler_terminates [OF assms(1) assms(4) assms(7) 1 2 3 4 5 6 7 8 assms(5), of args]
  show ?thesis unfolding run_pipeline_def keys .
qed

theorem run_pipeline_dispatches_once_witness:
  "\<exists>fuel s' evs. run_pipeline fuel example_world example_args example_conf fresh_run = Returned s' \<and>
     trace s' = evs \<and> distinct (admitted evs) \<and> set (admitted evs) = {''A'', ''B'', ''C''} \<and>
     set (dispatched evs) = {(''A'', ''a''), (''B'', ''b''), (''C'', ''c'')} \<and>
     spawn_count s' = 3"
proof -
  have 1: "acyclic (depends_on (conf_dag example_conf))"
    by (rule acyclicI_order [where f = "\<lambda>n. if n = ''C'' then 0 else (1::nat)"])
       (auto simp: depends_on_def example_conf_def)
  have 2: "\<forall>c \<in> set (conf_dag example_conf).
      set (dag_dependencies c) \<subseteq> dag_name ` set (conf_dag example_conf)"
    by (simp add: example_conf_def)
  have 3: "\<forall>c \<in> set (conf_dag example_conf). dag_step c \<in> dom (conf_steps example_conf)"
    by (simp add: example_conf_def example_steps_def)
  have 4: "\<forall>i. finish_after example_world i \<noteq> None"
    by (simp add: example_world_def)
  have 5: "tmpdir fresh_run \<noteq> None" by (simp add: fresh_run_def)
  have 6: "\<forall>c \<in> set (conf_dag example_conf). \<exists>t. open_write example_world (dag_name c) = Inr t"
    by (simp add: example_conf_def example_world_def flat_open_def)
  have 7: "\<forall>i. os_remove example_world i = None" by (simp add: example_world_def)
  from run_pipeline_dispatches_once [OF 1 2 3 4 5 6 7, of example_args]
  obtain fuel s' evs where
    r: "run_pipeline fuel example_world example_args example_conf fresh_run = Returned s'"
    "trace s' = trace fresh_run @ evs" "distinct (admitted evs)"
    "set (admitted evs) = dag_name ` set (conf_dag example_conf)"
    "set (dispatched evs) = set (steps_of (prepare_queue (conf_dag example_conf) []))"
    "spawn_count s' = spawn_count fresh_run + length (admitted evs)" by blast
  from r(3,4) have "length (admitted evs) = 3"
    using distinct_card [of "admitted evs"] by (simp add: example_conf_def)
  moreover have "set (steps_of (prepare_queue (conf_dag example_conf) [])) =
      {(''A'', ''a''), (''B'', ''b''), (''C'', ''c'')}"
    by (simp add: example_conf_def steps_of_def)
  ultimately show ?thesis using r
    by (intro exI [of _ fuel] exI [of _ s'] exI [of _ evs])
       (simp add: fresh_run_def example_conf_def)
qed

section \<open>Admission after the completion of dependencies\<close>



















lemma dict_set_mem: "(k, v) \<in> set (dict_set k v d)"
  by (induction d) auto

lemma dict_set_other: "(k', v') \<in> set d \<Longrightarrow> k' \<noteq> k \<Longrightarrow> (k', v') \<in> set (dict_set k v d)"
  by (induction d) auto

lemma prepare_queue_keeps:
  "(k, v) \<in> set queued \<Longrightarrow> k \<notin> dag_name ` set cs \<Longrightarrow> (k, v) \<in> set (prepare_queue cs queued)"
  by (induction cs arbitrary: queued) (auto simp: dict_set_other)

lemma prepare_queue_declared:
  "distinct (map dag_name cs) \<Longrightarrow> d \<in> set cs \<Longrightarrow>
   (dag_name d, \<lparr>q_step = dag_step d, q_dependencies = set (dag_dependencies d)\<rparr>)
     \<in> set (prepare_queue cs queued)"
proof (induction cs arbitrary: queued)
  case Nil
  then show ?case by simp
next
  case (Cons c cs)
  show ?case
  proof (cases "d = c")
    case True
    with Cons.prems show ?thesis
      by (auto intro!: prepare_queue_keeps dict_set_mem)
  next
    case False
    with Cons show ?thesis by simp
  qed
qed



section \<open>Runs that end without success\<close>

lemma run_step_ignores_status:
  "run_step (w\<lparr>exit_ok := ok\<rparr>) step args conf s = run_step w step args conf s"
  by (simp add: run_step_def spawn_container_def Let_def split: option.splits)

lemma admit_ignores_status:
  "admit (w\<lparr>exit_ok := ok\<rparr>) args conf items to_pop running s =
   admit w args conf items to_pop running s"
  by (induction items arbitrary: to_pop running s)
     (auto simp: run_step_ignores_status split: sum.splits)

lemma finish_one_ignores_status:
  "finish_one (w\<lparr>exit_ok := ok\<rparr>) pname running queued s = finish_one w pname running queued s"
  by (simp add: finish_one_def open_w_def remove_local_def Let_def
      split: option.splits sum.splits)

lemma finish_all_ignores_status:
  "finish_all (w\<lparr>exit_ok := ok\<rparr>) to_pop running queued s = finish_all w to_pop running queued s"
  by (induction to_pop arbitrary: running queued s)
     (auto simp: finish_one_ignores_status split: sum.splits)

lemma scheduler_ignores_status:
  "scheduler fuel (w\<lparr>exit_ok := ok\<rparr>) args conf running queued s =
   scheduler fuel w args conf running queued s"
proof (induction fuel w args conf running queued s rule: scheduler.induct)
  case (1 fuel w args conf running queued s)
  show ?case
    unfolding scheduler.simps [of fuel w args conf running queued s]
      scheduler.simps [of fuel "w\<lparr>exit_ok := ok\<rparr>" args conf running queued s]
    using 1
    by (auto simp: admit_ignores_status finish_all_ignores_status split: sum.splits prod.splits)
qed

text \<open>
  Claim C8 as stated fails. In the pipeline where \<open>B\<close> depends on \<open>A\<close> and \<open>C\<close> on
  nothing, with the container of \<open>A\<close> (the first one spawned) ending without success,
  the run returns normally and \<open>B\<close> has been admitted: the run was not aborted, and
  \<open>B\<close> was not held back.
\<close>

theorem failure_policy_counterexample:
  "\<not> exit_ok example_world 0 \<and>
   (case run_pipeline 10 example_world example_args policy_conf fresh_run of
      Returned s \<Rightarrow> take 2 (trace s) = [Spawned \<lparr>cid = 0, ctype = ''local'', cstep = ''a'',
          cfile = ''pipeline.yaml'', cworkdir = ''.'', cenvlist = [], coutput = None,
          polls_left = Some 0\<rparr>, Admitted ''A''] \<and> admitted (trace s) = [''A'', ''C'', ''B'']
    | Raised e s \<Rightarrow> False
    | Timeout s \<Rightarrow> False)"
  by (simp add: eval_defs)

text \<open>
  Claim C8, amended. The caller can select no behaviour for a run that completes
  without success, and the scheduler treats such a run as it treats a success. For
  every argument value: under the conditions of claim C1 as amended, and whatever the
  completion statuses of the runs are, \<^verbatim>\<open>run_pipeline\<close> returns normally, in one and
  the same final state, with every step of the DAG dispatched exactly once. So the run
  is not aborted after a failure, and the steps that depend on a failed run are
  dispatched like the others.
\<close>

theorem failure_not_distinguished:
  assumes "acyclic (depends_on (conf_dag conf))"
    and "\<forall>c \<in> set (conf_dag conf). set (dag_dependencies c) \<subseteq> dag_name ` set (conf_dag conf)"
    and "\<forall>c \<in> set (conf_dag conf). dag_step c \<in> dom (conf_steps conf)"
    and "\<forall>i. finish_after w i \<noteq> None"
    and "tmpdir s \<noteq> None"
    and "\<forall>c \<in> set (conf_dag conf). \<exists>t. open_write w (dag_name c) = Inr t"
    and "\<forall>i. os_remove w i = None"
  shows "\<exists>fuel s' evs.
           (\<forall>ok. run_pipeline fuel (w\<lparr>exit_ok := ok\<rparr>) args conf s = Returned s') \<and>
           trace s' = trace s @ evs \<and> distinct (admitted evs) \<and>
           set (admitted evs) = dag_name ` set (conf_dag conf)"
proof -
  let ?q = "prepare_queue (conf_dag conf) []"
  have keys: "fst ` set ?q = dag_name ` set (conf_dag conf)"
    by (simp add: prepare_queue_keys)
  have entry: "\<exists>d \<in> set (conf_dag conf). qname = dag_name d \<and>
      c = \<lparr>q_step = dag_step d, q_dependencies = set (dag_dependencies d)\<rparr>"
    if "(qname, c) \<in> set ?q" for qname c
    using prepare_queue_entries [OF that] by simp
  have 1: "distinct (map fst ?q)" by (rule prepare_queue_distinct) simp
  have 2: "distinct (map fst ([] :: runs))" by simp
  have 3: "fst ` set ?q \<inter> fst ` set ([] :: runs) = {}" by simp
  have 4: "\<forall>(qname, c) \<in> set ?q. q_dependencies c \<subseteq> fst ` set ?q \<union> fst ` set ([] :: runs)"
    using entry assms(2) unfolding keys by fastforce
  have 5: "\<forall>(qname, c) \<in> set ?q. \<forall>d \<in> q_dependencies c. (d, qname) \<in> depends_on (conf_dag conf)"
    using entry unfolding depends_on_def by fastforce
  have 6: "\<forall>(qname, c) \<in> set ?q. q_step c \<in> dom (conf_steps conf)"
    using entry assms(3) by fastforce
  have 7: "\<forall>(pname, c) \<in> set ([] :: runs). polls_left c \<noteq> None" by simp
  have 8: "\<forall>pname \<in> fst ` set ?q \<union> fst ` set ([] :: runs). \<exists>t. open_write w pname = Inr t"
    unfolding keys using assms(6) by simp
  from scheduler_terminates [OF assms(1) assms(4) assms(7) 1 2 3 4 5 6 7 8 assms(5), of args]
  obtain fuel s' evs where
    r: "scheduler fuel w args conf [] ?q s = Returned s'" "trace s' = trace s @ evs"
      "distinct (admitted evs)" "set (admitted evs) = fst ` set ?q"
    by (elim exE conjE) (rule that, assumption+)
  have all: "\<forall>ok. run_pipeline fuel (w\<lparr>exit_ok := ok\<rparr>) args conf s = Returned s'"
    unfolding run_pipeline_def scheduler_ignores_status using r(1) by (rule_tac allI)
  show ?thesis
  proof (intro exI conjI)
    show "\<forall>ok. run_pipeline fuel (w\<lparr>exit_ok := ok\<rparr>) args conf s = Returned s'" by (rule all)
    show "trace s' = trace s @ evs" by (rule r(2))
    show "distinct (admitted evs)" by (rule r(3))
    show "set (admitted evs) = dag_name ` set (conf_dag conf)" using r(4) unfolding keys .
  qed
qed

theorem failure_not_distinguished_witness:
  "\<not> exit_ok example_world 0 \<and>
   (\<exists>fuel s' evs.
      run_pipeline fuel example_world example_args policy_conf fresh_run = Returned s' \<and>
      run_pipeline fuel (example_world\<lparr>exit_ok := \<lambda>i. True\<rparr>) example_args policy_conf fresh_run
        = Returned s' \<and>
      trace s' = evs \<and> distinct (admitted evs) \<and> set (admitted evs) = {''A'', ''B'', ''C''})"
proof -
  have 1: "acyclic (depends_on (conf_dag policy_conf))"
    by (rule acyclicI_order [where f = "\<lambda>n. if n = ''B'' then 0 else (1::nat)"])
       (auto simp: depends_on_def policy_conf_def)
  have 2: "\<forall>c \<in> set (conf_dag policy_conf).
      set (dag_dependencies c) \<subseteq> dag_name ` set (conf_dag policy_conf)"
    by (simp add: policy_conf_def)
  have 3: "\<forall>c \<in> set (conf_dag policy_conf). dag_step c \<in> dom (conf_steps policy_conf)"
    by (simp add: policy_conf_def example_steps_def)
  have 4: "\<forall>i. finish_after example_world i \<noteq> None"
    by (simp add: example_world_def)
  have 5: "tmpdir fresh_run \<noteq> None" by (simp add: fresh_run_def)
  have 6: "\<forall>c \<in> set (conf_dag policy_conf). \<exists>t. open_write example_world (dag_name c) = Inr t"
    by (simp add: policy_conf_def example_world_def flat_open_def)
  have 7: "\<forall>i. os_remove example_world i = None" by (simp add: example_world_def)
  have 8: "\<not> exit_ok example_world 0" by (simp add: example_world_def)
  from failure_not_distinguished [OF 1 2 3 4 5 6 7, of example_args]
  obtain fuel s' evs where
    r: "\<forall>ok. run_pipeline fuel (example_world\<lparr>exit_ok := ok\<rparr>) example_args policy_conf
          fresh_run = Returned s'"
    "trace s' = trace fresh_run @ evs" "distinct (admitted evs)"
    "set (admitted evs) = dag_name ` set (conf_dag policy_conf)"
    by (elim exE conjE) (rule that, assumption+)
  from r(1) have "run_pipeline fuel (example_world\<lparr>exit_ok := exit_ok example_world\<rparr>)
      example_args policy_conf fresh_run = Returned s'" by (rule spec)
  then have a: "run_pipeline fuel example_world example_args policy_conf fresh_run = Returned s'"
    by simp
  from r(1) have b: "run_pipeline fuel (example_world\<lparr>exit_ok := \<lambda>i. True\<rparr>) example_args
      policy_conf fresh_run = Returned s'" by (rule spec)
  from r(2) have c: "trace s' = evs" by (simp add: fresh_run_def)
  from r(4) have d: "set (admitted evs) = {''A'', ''B'', ''C''}"
    by (simp add: policy_conf_def insert_commute)
  show ?thesis
  proof (intro conjI exI)
    show "\<not> exit_ok example_world 0" by (rule 8)
    show "run_pipeline fuel example_world example_args policy_conf fresh_run = Returned s'"
      by (rule a)
    show "run_pipeline fuel (example_world\<lparr>exit_ok := \<lambda>i. True\<rparr>) example_args policy_conf
        fresh_run = Returned s'" by (rule b)
    show "trace s' = evs" by (rule c)
    show "distinct (admitted evs)" by (rule r(3))
    show "set (admitted evs) = {''A'', ''B'', ''C''}" by (rule d)
  qed
qed

end
